theory Spec2Isabelle
  imports Complex_Main
begin

section \<open>RingBuffer (src/src/utils/EventEmitter.js, lines 94--223)\<close>

text \<open>
  The class \<^verbatim>\<open>RingBuffer\<close> is a record of its five fields. The sample type is a
  parameter with a zero (the \<^verbatim>\<open>Float32Array\<close> is zero-filled, \<^verbatim>\<open>readOne\<close> returns 0
  when empty). The cursors only ever take the values \<^verbatim>\<open>0\<close> and \<^verbatim>\<open>(p + 1) % capacity\<close>, so
  they are naturals; \<^verbatim>\<open>available\<close> is also subtracted from, so it is an integer and its
  sign is something to prove. Counts and offsets passed by a caller are whole numbers, as
  the docstrings have them (\<^verbatim>\<open>count\<close> is the "Samples to read", the result the "Number of
  samples actually read"), so they are integers; a fractional count is outside the model.
  A capacity of 0 makes \<^verbatim>\<open>% capacity\<close> NaN in JavaScript; every statement below is about
  capacities above 0.
\<close>

record 'a ring_buffer =
  buffer :: "'a list"
  capacity :: nat
  readPtr :: nat
  writePtr :: nat
  available :: int

datatype js_error = RangeError

text \<open>\<^verbatim>\<open>constructor(capacity)\<close>\<close>

definition RingBuffer :: "nat \<Rightarrow> ('a::zero) ring_buffer" where
  "RingBuffer c =
     \<lparr>buffer = replicate c 0, capacity = c, readPtr = 0, writePtr = 0, available = 0\<rparr>"

text \<open>\<^verbatim>\<open>get free()\<close>: \<^verbatim>\<open>this.capacity - this.available\<close>\<close>

definition free :: "'a ring_buffer \<Rightarrow> int" where
  "free rb = int (capacity rb) - available rb"

text \<open>
  The body of the loop shared by \<^verbatim>\<open>write\<close> and \<^verbatim>\<open>writeOverflow\<close>:
  \<^verbatim>\<open>this.buffer[this.writePtr] = samples[i]; this.writePtr = (this.writePtr + 1) % this.capacity\<close>.
\<close>

definition store :: "'a \<Rightarrow> 'a ring_buffer \<Rightarrow> 'a ring_buffer" where
  "store x rb =
     rb\<lparr>buffer := (buffer rb)[writePtr rb := x],
        writePtr := (writePtr rb + 1) mod capacity rb\<rparr>"

text \<open>The loop of \<^verbatim>\<open>write\<close>, run over the samples \<^verbatim>\<open>samples[0 .. toWrite - 1]\<close>.\<close>

primrec write_loop :: "'a list \<Rightarrow> 'a ring_buffer \<Rightarrow> 'a ring_buffer" where
  "write_loop [] rb = rb"
| "write_loop (x # xs) rb = write_loop xs (store x rb)"

text \<open>
  \<^verbatim>\<open>write(samples)\<close>: the number written and the buffer afterwards (\<open>write\<close> is an
  Isar keyword, hence the suffix).
\<close>

definition write_rb :: "'a ring_buffer \<Rightarrow> 'a list \<Rightarrow> int \<times> 'a ring_buffer" where
  "write_rb rb samples =
     (let toWrite = min (int (length samples)) (free rb);
          rb' = write_loop (take (nat toWrite) samples) rb
      in (toWrite, rb'\<lparr>available := available rb' + toWrite\<rparr>))"

text \<open>\<^verbatim>\<open>writeOverflow(samples)\<close>: the loop carries the counter \<^verbatim>\<open>overwritten\<close>.\<close>

primrec writeOverflow_loop ::
  "'a list \<Rightarrow> int \<Rightarrow> 'a ring_buffer \<Rightarrow> int \<times> 'a ring_buffer" where
  "writeOverflow_loop [] overwritten rb = (overwritten, rb)"
| "writeOverflow_loop (x # xs) overwritten rb =
     (if available rb \<ge> int (capacity rb)
      then writeOverflow_loop xs (overwritten + 1)
             (store x (rb\<lparr>readPtr := (readPtr rb + 1) mod capacity rb\<rparr>))
      else writeOverflow_loop xs overwritten
             (store x (rb\<lparr>available := available rb + 1\<rparr>)))"

definition writeOverflow :: "'a ring_buffer \<Rightarrow> 'a list \<Rightarrow> int \<times> 'a ring_buffer" where
  "writeOverflow rb samples = writeOverflow_loop samples 0 rb"

text \<open>
  \<^verbatim>\<open>target[offset + i] = v\<close> on a typed array: an index outside the array is ignored.
\<close>

definition typed_set :: "'a list \<Rightarrow> int \<Rightarrow> 'a \<Rightarrow> 'a list" where
  "typed_set target j v =
     (if 0 \<le> j \<and> j < int (length target) then target[nat j := v] else target)"

text \<open>
  The loop of \<^verbatim>\<open>read\<close>: the number of iterations left, the index \<^verbatim>\<open>offset + i\<close>, the
  target and the buffer.
\<close>

primrec read_loop ::
  "nat \<Rightarrow> int \<Rightarrow> 'a list \<Rightarrow> 'a ring_buffer \<Rightarrow> 'a list \<times> 'a ring_buffer" where
  "read_loop 0 j target rb = (target, rb)"
| "read_loop (Suc n) j target rb =
     read_loop n (j + 1) (typed_set target j (buffer rb ! readPtr rb))
       (rb\<lparr>readPtr := (readPtr rb + 1) mod capacity rb\<rparr>)"

text \<open>
  \<^verbatim>\<open>read(target, offset = 0, count)\<close>: an omitted \<^verbatim>\<open>count\<close> is \<open>None\<close>. The result is
  the number read, the target afterwards and the buffer afterwards. The source does not
  check its arguments; what it computes for a negative request (no iteration of the loop,
  and \<^verbatim>\<open>toRead\<close> still subtracted) is modelled as it is, and lies outside the contract
  of the docstring, a number of samples to read.
\<close>

definition read ::
  "'a ring_buffer \<Rightarrow> 'a list \<Rightarrow> int \<Rightarrow> int option \<Rightarrow> int \<times> 'a list \<times> 'a ring_buffer" where
  "read rb target offset count =
     (let toRead = min (case count of Some c \<Rightarrow> c | None \<Rightarrow> int (length target) - offset)
                       (available rb);
          (target', rb') = read_loop (nat toRead) offset target rb
      in (toRead, target', rb'\<lparr>available := available rb' - toRead\<rparr>))"

text \<open>\<^verbatim>\<open>readOne()\<close>\<close>

definition readOne :: "('a::zero) ring_buffer \<Rightarrow> 'a \<times> 'a ring_buffer" where
  "readOne rb =
     (if available rb = 0 then (0, rb)
      else (buffer rb ! readPtr rb,
            rb\<lparr>readPtr := (readPtr rb + 1) mod capacity rb, available := available rb - 1\<rparr>))"

text \<open>
  \<^verbatim>\<open>peek(count)\<close>: the loop fills \<^verbatim>\<open>result[0], result[1], ...\<close> in this order from a
  local cursor; \<^verbatim>\<open>new Float32Array(n)\<close> throws a RangeError for a negative \<^verbatim>\<open>n\<close>. The
  buffer is not changed.
\<close>

primrec peek_loop :: "nat \<Rightarrow> nat \<Rightarrow> 'a ring_buffer \<Rightarrow> 'a list" where
  "peek_loop 0 ptr rb = []"
| "peek_loop (Suc n) ptr rb = buffer rb ! ptr # peek_loop n ((ptr + 1) mod capacity rb) rb"

definition peek :: "'a ring_buffer \<Rightarrow> int \<Rightarrow> js_error + 'a list" where
  "peek rb count =
     (let n = min count (available rb)
      in if n < 0 then Inl RangeError else Inr (peek_loop (nat n) (readPtr rb) rb))"

text \<open>\<^verbatim>\<open>clear()\<close>\<close>

definition clear :: "'a ring_buffer \<Rightarrow> 'a ring_buffer" where
  "clear rb = rb\<lparr>readPtr := 0, writePtr := 0, available := 0\<rparr>"

text \<open>A call of one of the six operations, and the buffer it leaves.\<close>

datatype 'a rb_op =
    Write "'a list"
  | WriteOverflow "'a list"
  | Read "'a list" int "int option"
  | ReadOne
  | Peek int
  | Clear

fun apply_op :: "('a::zero) ring_buffer \<Rightarrow> 'a rb_op \<Rightarrow> 'a ring_buffer" where
  "apply_op rb (Write samples) = snd (write_rb rb samples)"
| "apply_op rb (WriteOverflow samples) = snd (writeOverflow rb samples)"
| "apply_op rb (Read target offset count) = snd (snd (read rb target offset count))"
| "apply_op rb ReadOne = snd (readOne rb)"
| "apply_op rb (Peek count) = rb"
| "apply_op rb Clear = clear rb"

definition run_ops :: "('a::zero) ring_buffer \<Rightarrow> 'a rb_op list \<Rightarrow> 'a ring_buffer" where
  "run_ops rb ops = foldl apply_op rb ops"

text \<open>
  The number of samples a \<^verbatim>\<open>read\<close> call asks for, before it is cut to \<^verbatim>\<open>available\<close>:
  \<^verbatim>\<open>count\<close>, or \<^verbatim>\<open>target.length - offset\<close> when \<^verbatim>\<open>count\<close> is omitted. A call within the
  docstring's contract asks for a number of samples, which is not negative.
\<close>

fun requested :: "'a rb_op \<Rightarrow> int" where
  "requested (Read target offset count) =
     (case count of Some c \<Rightarrow> c | None \<Rightarrow> int (length target) - offset)"
| "requested _ = 0"

text \<open>
  The consistency of a buffer: what the constructor establishes and every operation keeps.
  The write cursor is \<^verbatim>\<open>available\<close> places after the read cursor.
\<close>

definition rb_inv :: "'a ring_buffer \<Rightarrow> bool" where
  "rb_inv rb \<longleftrightarrow>
     0 < capacity rb \<and> length (buffer rb) = capacity rb \<and> readPtr rb < capacity rb \<and>
     0 \<le> available rb \<and> available rb \<le> int (capacity rb) \<and>
     writePtr rb = (readPtr rb + nat (available rb)) mod capacity rb"

text \<open>The unread samples, oldest first.\<close>

definition contents :: "'a ring_buffer \<Rightarrow> 'a list" where
  "contents rb =
     map (\<lambda>i. buffer rb ! ((readPtr rb + i) mod capacity rb)) [0..<nat (available rb)]"


section \<open>Viseme tables (src/src/core/visemes.js)\<close>

text \<open>
  Viseme labels are JavaScript strings and the tables are objects keyed by them, so a
  lookup can miss; the tables are association lists read with \<open>map_of\<close>. (A JavaScript
  lookup of a name that \<^verbatim>\<open>Object.prototype\<close> defines, such as \<^verbatim>\<open>constructor\<close>, finds the
  inherited property; the analyzer only ever looks up the labels it holds, which are keys of
  the extended set, see \<open>an_inv\<close> below.)
\<close>

record viseme_def =
  label :: string
  description :: string

definition EXTENDED_VISEMES :: "(string \<times> viseme_def) list" where
  "EXTENDED_VISEMES =
    [(''sil'', \<lparr>label = ''Silent'', description = ''Mouth closed, neutral''\<rparr>),
     (''PP'', \<lparr>label = ''P/B/M'', description = ''Lips pressed together''\<rparr>),
     (''FF'', \<lparr>label = ''F/V'', description = ''Lower lip to upper teeth''\<rparr>),
     (''TH'', \<lparr>label = ''TH'', description = ''Tongue between teeth''\<rparr>),
     (''DD'', \<lparr>label = ''D/T/N/L'', description = ''Tongue to upper palate''\<rparr>),
     (''kk'', \<lparr>label = ''K/G'', description = ''Back of tongue raised''\<rparr>),
     (''CH'', \<lparr>label = ''CH/SH/J'', description = ''Lips pursed forward''\<rparr>),
     (''SS'', \<lparr>label = ''S/Z'', description = ''Teeth close, slight smile''\<rparr>),
     (''nn'', \<lparr>label = ''N/NG'', description = ''Mouth slightly open, nasal''\<rparr>),
     (''RR'', \<lparr>label = ''R'', description = ''Lips slightly rounded''\<rparr>),
     (''aa'', \<lparr>label = ''AA/AH'', description = ''Wide open mouth''\<rparr>),
     (''E'', \<lparr>label = ''EH/AE'', description = ''Mouth open, slight smile''\<rparr>),
     (''I'', \<lparr>label = ''IH/IY'', description = ''Small opening, smile''\<rparr>),
     (''O'', \<lparr>label = ''OH/AO'', description = ''Rounded, medium open''\<rparr>),
     (''U'', \<lparr>label = ''UW/OW'', description = ''Small rounded opening''\<rparr>)]"

text \<open>\<^verbatim>\<open>Object.keys(EXTENDED_VISEMES)\<close>\<close>

definition EXTENDED_VISEME_KEYS :: "string list" where
  "EXTENDED_VISEME_KEYS = map fst EXTENDED_VISEMES"

text \<open>The simple set: each key with its \<^verbatim>\<open>label\<close> and its \<^verbatim>\<open>extendedMap\<close>.\<close>

definition SIMPLE_VISEMES :: "(string \<times> string \<times> string list) list" where
  "SIMPLE_VISEMES =
    [(''A'', ''Rest / M/B/P closed'', [''sil'']),
     (''B'', ''M / B / P'', [''PP'', ''nn'']),
     (''C'', ''EE / S / soft sounds'', [''E'', ''I'', ''SS'']),
     (''D'', ''AH / wide open'', [''aa'', ''DD'', ''kk'']),
     (''E'', ''OH / round'', [''O'', ''RR'', ''CH'']),
     (''F'', ''OO / F / V / tight'', [''FF'', ''TH'', ''U''])]"

definition SIMPLE_VISEME_KEYS :: "string list" where
  "SIMPLE_VISEME_KEYS = map fst SIMPLE_VISEMES"

text \<open>
  The derived mapping: the two nested \<^verbatim>\<open>for\<close> loops assign
  \<^verbatim>\<open>EXTENDED_TO_SIMPLE[ext] = simpleKey\<close> into an object that starts empty; a later
  assignment to the same key would replace the earlier one.
\<close>

definition EXTENDED_TO_SIMPLE :: "string \<rightharpoonup> string" where
  "EXTENDED_TO_SIMPLE =
     fold (\<lambda>(simpleKey, lbl, extendedMap) m. fold (\<lambda>ext m'. m'(ext \<mapsto> simpleKey)) extendedMap m)
       SIMPLE_VISEMES Map.empty"

definition TRANSITION_WEIGHTS :: "(string \<times> (string \<times> real) list) list" where
  "TRANSITION_WEIGHTS =
    [(''sil'', [(''aa'', 0.3), (''E'', 0.3), (''I'', 0.3), (''O'', 0.3), (''U'', 0.3),
                (''PP'', 0.2), (''FF'', 0.2)]),
     (''aa'', [(''sil'', 0.4), (''E'', 0.5), (''O'', 0.6), (''I'', 0.5), (''PP'', 0.3),
               (''SS'', 0.3)]),
     (''PP'', [(''aa'', 0.2), (''sil'', 0.2), (''E'', 0.3), (''FF'', 0.4)]),
     (''FF'', [(''aa'', 0.3), (''PP'', 0.4), (''sil'', 0.2)]),
     (''SS'', [(''sil'', 0.2), (''aa'', 0.3), (''CH'', 0.6)])]"

text \<open>\<^verbatim>\<open>TRANSITION_WEIGHTS[from]?.[to] ?? 0.35\<close>\<close>

definition getTransitionWeight :: "string \<Rightarrow> string \<Rightarrow> real" where
  "getTransitionWeight from_v to_v =
     (case map_of TRANSITION_WEIGHTS from_v of
        None \<Rightarrow> 0.35
      | Some row \<Rightarrow> (case map_of row to_v of None \<Rightarrow> 0.35 | Some w \<Rightarrow> w))"

text \<open>
  The fields \<^verbatim>\<open>open\<close>, \<^verbatim>\<open>width\<close>, \<^verbatim>\<open>round\<close> of a shape; \<open>open\<close> and \<open>round\<close> are
  constants of HOL, hence the suffix.
\<close>

record mouth_shape =
  open_s :: real
  width_s :: real
  round_s :: real

definition VISEME_SHAPES :: "(string \<times> mouth_shape) list" where
  "VISEME_SHAPES =
    [(''sil'', \<lparr>open_s = 0.00, width_s = 0.50, round_s = 0.0\<rparr>),
     (''PP'', \<lparr>open_s = 0.00, width_s = 0.40, round_s = 0.0\<rparr>),
     (''FF'', \<lparr>open_s = 0.05, width_s = 0.55, round_s = 0.0\<rparr>),
     (''TH'', \<lparr>open_s = 0.10, width_s = 0.50, round_s = 0.0\<rparr>),
     (''DD'', \<lparr>open_s = 0.20, width_s = 0.50, round_s = 0.0\<rparr>),
     (''kk'', \<lparr>open_s = 0.25, width_s = 0.45, round_s = 0.0\<rparr>),
     (''CH'', \<lparr>open_s = 0.15, width_s = 0.35, round_s = 0.6\<rparr>),
     (''SS'', \<lparr>open_s = 0.05, width_s = 0.60, round_s = 0.0\<rparr>),
     (''nn'', \<lparr>open_s = 0.15, width_s = 0.50, round_s = 0.0\<rparr>),
     (''RR'', \<lparr>open_s = 0.20, width_s = 0.40, round_s = 0.4\<rparr>),
     (''aa'', \<lparr>open_s = 0.90, width_s = 0.60, round_s = 0.0\<rparr>),
     (''E'', \<lparr>open_s = 0.50, width_s = 0.65, round_s = 0.0\<rparr>),
     (''I'', \<lparr>open_s = 0.25, width_s = 0.70, round_s = 0.0\<rparr>),
     (''O'', \<lparr>open_s = 0.60, width_s = 0.40, round_s = 0.8\<rparr>),
     (''U'', \<lparr>open_s = 0.20, width_s = 0.30, round_s = 0.9\<rparr>)]"

text \<open>
  \<^verbatim>\<open>VISEME_SHAPES[v] || VISEME_SHAPES.sil\<close>; the second branch is the table's entry
  for \<^verbatim>\<open>sil\<close>.
\<close>

definition shape_of :: "string \<Rightarrow> mouth_shape" where
  "shape_of v =
     (case map_of VISEME_SHAPES v of
        Some s \<Rightarrow> s
      | None \<Rightarrow> \<lparr>open_s = 0.00, width_s = 0.50, round_s = 0.0\<rparr>)"


section \<open>FrequencyAnalyzer (src/src/utils/EventEmitter.js, lines 253--484)\<close>

text \<open>
  JavaScript numbers are modelled as reals (and the two counters as integers): rounding,
  infinities and NaN are outside the model. The only operation whose result a real cannot
  hold is a division by zero, so a division returns \<open>None\<close> there and the functions that
  divide return an option.
\<close>

definition js_div :: "real \<Rightarrow> real \<Rightarrow> real option" where
  "js_div x d = (if d = 0 then None else Some (x / d))"

text \<open>
  Modelled from the spec: \<^verbatim>\<open>smoothValue\<close> and \<^verbatim>\<open>clamp\<close> are imported from
  \<^verbatim>\<open>utils/audio-utils.js\<close>, which is not among the sources. The spec gives the smoothing as
  \<^verbatim>\<open>smoothed = smoothed + (raw - smoothed) * (1 - factor)\<close>; \<^verbatim>\<open>clamp(value, min, max)\<close> is
  the usual one, the spec's intensity in [0,1].
\<close>

definition smoothValue :: "real \<Rightarrow> real \<Rightarrow> real \<Rightarrow> real" where
  "smoothValue current target factor = current + (target - current) * (1 - factor)"

definition clamp :: "real \<Rightarrow> real \<Rightarrow> real \<Rightarrow> real" where
  "clamp v lo hi = max lo (min hi v)"

record band_energies =
  sub :: real
  low :: real
  mid :: real
  high :: real
  veryHigh :: real

text \<open>The options the analyzer reads, and \<^verbatim>\<open>DEFAULTS\<close>.\<close>

record options =
  fftSize :: nat
  silenceThreshold :: real
  smoothingFactor :: real
  holdFrames :: real
  intensitySmoothing :: real
  energySmoothing :: real

definition DEFAULTS :: options where
  "DEFAULTS =
     \<lparr>fftSize = 256, silenceThreshold = 0.015, smoothingFactor = 0.35, holdFrames = 2,
      intensitySmoothing = 0.2, energySmoothing = 0.5\<rparr>"

text \<open>The state of an analyzer: the fields \<^verbatim>\<open>this._currentViseme\<close>, ... and \<^verbatim>\<open>this.opts\<close>.\<close>

record analyzer =
  opts :: options
  currentViseme :: string
  currentIntensity :: real
  holdCounter :: int
  smoothedAmplitude :: real
  smoothedBands :: band_energies
  previousViseme :: string
  transitionProgress :: real
  frameCount :: int

text \<open>
  The constructor, given \<^verbatim>\<open>{ ...DEFAULTS, ...options }\<close>; the analyser node and the two
  byte buffers are the environment, whose readings are arguments of \<open>analyze\<close>.
\<close>

definition FrequencyAnalyzer :: "options \<Rightarrow> analyzer" where
  "FrequencyAnalyzer os =
     \<lparr>opts = os, currentViseme = ''sil'', currentIntensity = 0, holdCounter = 0,
      smoothedAmplitude = 0,
      smoothedBands = \<lparr>sub = 0, low = 0, mid = 0, high = 0, veryHigh = 0\<rparr>,
      previousViseme = ''sil'', transitionProgress = 1, frameCount = 0\<rparr>"

text \<open>\<^verbatim>\<open>reset()\<close>\<close>

definition reset :: "analyzer \<Rightarrow> analyzer" where
  "reset st =
     st\<lparr>currentViseme := ''sil'', currentIntensity := 0, holdCounter := 0,
        smoothedAmplitude := 0,
        smoothedBands := \<lparr>sub = 0, low = 0, mid = 0, high = 0, veryHigh = 0\<rparr>,
        previousViseme := ''sil'', transitionProgress := 1, frameCount := 0\<rparr>"

text \<open>The frame \<^verbatim>\<open>_emitViseme\<close> returns; \<^verbatim>\<open>transition\<close> is \<^verbatim>\<open>{from, to, progress}\<close>.\<close>

record transition_info =
  from_viseme :: string
  to_viseme :: string
  progress :: real

record viseme_frame =
  viseme :: string
  simpleViseme :: string
  intensity :: real
  confidence :: real
  amplitude :: real
  bands :: band_energies
  shape :: mouth_shape
  transition :: transition_info
  frame :: int

text \<open>
  \<^verbatim>\<open>_classifyViseme(bands, intensity)\<close>: the returned object \<^verbatim>\<open>{viseme, confidence}\<close> is a
  pair. The rules are tried in the source's order; each score is computed where the
  source computes it.
\<close>

definition classifyViseme :: "analyzer \<Rightarrow> band_energies \<Rightarrow> real \<Rightarrow> (string \<times> real) option" where
  "classifyViseme st b intensity_arg =
     (let totalEnergy = sub b + low b + mid b + high b + veryHigh b in
      if totalEnergy < 0.01 then Some (''sil'', 0.9)
      else
        case js_div (high b + veryHigh b) (totalEnergy + 0.001) of
          None \<Rightarrow> None
        | Some sibilantScore \<Rightarrow>
            if sibilantScore > 0.55 \<and> high b > 0.15 then
              (if veryHigh b > high b * 0.8 then Some (''SS'', sibilantScore)
               else Some (''CH'', sibilantScore * 0.85))
            else
              case js_div (mid b + high b) (totalEnergy + 0.001) of
                None \<Rightarrow> None
              | Some fricativeScore \<Rightarrow>
                  if fricativeScore > 0.5 \<and> high b > 0.1 \<and> low b < 0.15 then
                    Some (''FF'', fricativeScore * 0.8)
                  else
                    case js_div \<bar>high b - low b\<bar> (totalEnergy + 0.001) of
                      None \<Rightarrow> None
                    | Some r \<Rightarrow>
                        let flatness = 1 - r in
                        if intensity_arg > 0.6 \<and> flatness > 0.7 \<and> smoothedAmplitude st > 0.08 then
                          (if low b > mid b then Some (''PP'', 0.6) else Some (''DD'', 0.6))
                        else if sub b > 0.2 \<and> low b > 0.15 \<and> high b < 0.08 \<and> mid b < low b * 0.7
                          then Some (''nn'', 0.65)
                        else if low b > 0.2 \<and> mid b > 0.15 \<and> intensity_arg > 0.5
                          then Some (''aa'', 0.7)
                        else if mid b > low b \<and> mid b > 0.15 \<and> intensity_arg > 0.3
                          then Some (''E'', 0.65)
                        else if sub b > mid b \<and> low b > mid b \<and> intensity_arg > 0.3
                          then Some (''O'', 0.6)
                        else if mid b > 0.1 \<and> high b > low b * 0.5 \<and> intensity_arg > 0.2
                          then Some (''I'', 0.55)
                        else if sub b > 0.15 \<and> high b < 0.05 then Some (''U'', 0.5)
                        else if intensity_arg > 0.5 then Some (''aa'', 0.4)
                        else if intensity_arg > 0.3 then Some (''E'', 0.35)
                        else if intensity_arg > 0.15 then Some (''I'', 0.3)
                        else Some (''sil'', 0.5))"

text \<open>
  \<^verbatim>\<open>_emitViseme(viseme, intensity, bands, confidence = 0.5)\<close>: the frame and the analyzer
  afterwards. A call that leaves \<^verbatim>\<open>confidence\<close> out passes 0.5 here. The parameter
  \<^verbatim>\<open>bands\<close> is not read by the body.
\<close>

definition emitViseme ::
  "analyzer \<Rightarrow> string \<Rightarrow> real \<Rightarrow> band_energies \<Rightarrow> real \<Rightarrow> viseme_frame \<times> analyzer" where
  "emitViseme st v intensity_arg bands_arg confidence_arg =
     (let st1 =
            (if v \<noteq> currentViseme st
             then st\<lparr>previousViseme := currentViseme st, currentViseme := v,
                     transitionProgress := 0\<rparr>
             else st\<lparr>transitionProgress :=
                       min 1 (transitionProgress st +
                              (1 - getTransitionWeight (previousViseme st) (currentViseme st)) * 0.3)\<rparr>);
          st2 = st1\<lparr>currentIntensity :=
                      smoothValue (currentIntensity st1) intensity_arg (intensitySmoothing (opts st1))\<rparr>;
          prevShape = shape_of (previousViseme st2);
          currShape = shape_of (currentViseme st2);
          t = transitionProgress st2
      in (\<lparr>viseme = currentViseme st2,
           simpleViseme = (case EXTENDED_TO_SIMPLE (currentViseme st2) of Some k \<Rightarrow> k | None \<Rightarrow> ''A''),
           intensity = currentIntensity st2,
           confidence = confidence_arg,
           amplitude = smoothedAmplitude st2,
           bands = smoothedBands st2,
           shape = \<lparr>open_s = open_s prevShape + (open_s currShape - open_s prevShape) * t,
                     width_s = width_s prevShape + (width_s currShape - width_s prevShape) * t,
                     round_s = round_s prevShape + (round_s currShape - round_s prevShape) * t\<rparr>,
           transition = \<lparr>from_viseme = previousViseme st2, to_viseme = currentViseme st2,
                          progress = transitionProgress st2\<rparr>,
           frame = frameCount st2\<rparr>, st2))"

text \<open>
  The first part of \<^verbatim>\<open>analyze()\<close> (lines 299--320): the frame counter, and the smoothing of
  the amplitude and of each band. \<^verbatim>\<open>rawAmplitude\<close> and \<^verbatim>\<open>rawBands\<close> are what
  \<^verbatim>\<open>calculateRMS\<close> and \<^verbatim>\<open>extractBandEnergies\<close> return for the analyser node's data of this
  cycle.
\<close>

definition smoothInputs :: "analyzer \<Rightarrow> real \<Rightarrow> band_energies \<Rightarrow> analyzer" where
  "smoothInputs st rawAmplitude rawBands =
     (let f = smoothingFactor (opts st); sb = smoothedBands st in
      st\<lparr>frameCount := frameCount st + 1,
         smoothedAmplitude := smoothValue (smoothedAmplitude st) rawAmplitude f,
         smoothedBands :=
           \<lparr>sub = smoothValue (sub sb) (sub rawBands) f,
            low = smoothValue (low sb) (low rawBands) f,
            mid = smoothValue (mid sb) (mid rawBands) f,
            high = smoothValue (high sb) (high rawBands) f,
            veryHigh = smoothValue (veryHigh sb) (veryHigh rawBands) f\<rparr>\<rparr>)"

text \<open>
  The hold-off of \<^verbatim>\<open>analyze()\<close> (lines 332--344), for the classifier's proposal
  \<^verbatim>\<open>{viseme, confidence}\<close>.
\<close>

definition holdOff ::
  "analyzer \<Rightarrow> string \<Rightarrow> real \<Rightarrow> real \<Rightarrow> band_energies \<Rightarrow> viseme_frame \<times> analyzer" where
  "holdOff st v conf intensity_arg bands_arg =
     (if v \<noteq> currentViseme st then
        (let st1 = st\<lparr>holdCounter := holdCounter st + 1\<rparr> in
         if real_of_int (holdCounter st1) < holdFrames (opts st1)
         then emitViseme st1 (currentViseme st1) intensity_arg bands_arg 0.5
         else emitViseme (st1\<lparr>holdCounter := 0\<rparr>) v intensity_arg bands_arg conf)
      else emitViseme (st\<lparr>holdCounter := 0\<rparr>) v intensity_arg bands_arg conf)"

text \<open>\<^verbatim>\<open>analyze()\<close>: the silence gate, the classifier, the hold-off.\<close>

definition analyze ::
  "analyzer \<Rightarrow> real \<Rightarrow> band_energies \<Rightarrow> (viseme_frame \<times> analyzer) option" where
  "analyze st rawAmplitude rawBands =
     (let st1 = smoothInputs st rawAmplitude rawBands;
          bs = smoothedBands st1
      in if smoothedAmplitude st1 < silenceThreshold (opts st1)
         then Some (emitViseme st1 ''sil'' 0 bs 0.5)
         else
           let intensity_v = clamp (smoothedAmplitude st1 * 3) 0 1 in
           case classifyViseme st1 bs intensity_v of
             None \<Rightarrow> None
           | Some (v, conf) \<Rightarrow> Some (holdOff st1 v conf intensity_v bs))"

text \<open>
  The classifier's proposal of a cycle: the \<^verbatim>\<open>{ viseme, confidence }\<close> that \<^verbatim>\<open>analyze()\<close>
  takes from \<^verbatim>\<open>_classifyViseme(bands, intensity)\<close> at line 330, on the smoothed inputs.
\<close>

definition proposal :: "analyzer \<Rightarrow> real \<Rightarrow> band_energies \<Rightarrow> (string \<times> real) option" where
  "proposal st rawAmplitude rawBands =
     (let st1 = smoothInputs st rawAmplitude rawBands
      in classifyViseme st1 (smoothedBands st1) (clamp (smoothedAmplitude st1 * 3) 0 1))"

text \<open>
  The calls made on an analyzer object, and the analyzer they leave. A run starts from
  the constructor.
\<close>

datatype analyzer_call = Analyze real band_energies | Reset

fun call :: "analyzer \<Rightarrow> analyzer_call \<Rightarrow> analyzer" where
  "call st (Analyze rawAmplitude rawBands) =
     (case analyze st rawAmplitude rawBands of Some (f, st') \<Rightarrow> st' | None \<Rightarrow> st)"
| "call st Reset = reset st"

definition run_calls :: "analyzer \<Rightarrow> analyzer_call list \<Rightarrow> analyzer" where
  "run_calls st cs = foldl call st cs"

text \<open>
  A run of hold-off cycles above the silence gate, one per proposal of the classifier:
  the proposed label, its confidence and the cycle's intensity.
\<close>

fun holdOff_run :: "analyzer \<Rightarrow> (string \<times> real \<times> real) list \<Rightarrow> analyzer" where
  "holdOff_run st [] = st"
| "holdOff_run st ((v, conf, i) # ps) = holdOff_run (snd (holdOff st v conf i (smoothedBands st))) ps"

text \<open>
  The longest streak of consecutive proposals that differ from the label \<open>l\<close>, where a
  streak of length \<open>c\<close> is already running.
\<close>

fun max_streak :: "string \<Rightarrow> int \<Rightarrow> string list \<Rightarrow> int" where
  "max_streak l c [] = c"
| "max_streak l c (p # ps) =
     (if p \<noteq> l then max_streak l (c + 1) ps else max c (max_streak l 0 ps))"

text \<open>Of every two consecutive proposals one is the label \<open>l\<close>.\<close>

fun alternates :: "string \<Rightarrow> string list \<Rightarrow> bool" where
  "alternates l (p # q # ps) = ((p = l \<or> q = l) \<and> alternates l (q # ps))"
| "alternates l ps = True"

text \<open>No band energy is negative.\<close>

definition bands_nonneg :: "band_energies \<Rightarrow> bool" where
  "bands_nonneg b \<longleftrightarrow> 0 \<le> sub b \<and> 0 \<le> low b \<and> 0 \<le> mid b \<and> 0 \<le> high b \<and> 0 \<le> veryHigh b"

text \<open>
  What holds of every analyzer a run can reach: both labels are keys of the extended set
  and the transition progress is in [0,1].
\<close>

definition an_inv :: "analyzer \<Rightarrow> bool" where
  "an_inv st \<longleftrightarrow>
     currentViseme st \<in> set EXTENDED_VISEME_KEYS \<and>
     previousViseme st \<in> set EXTENDED_VISEME_KEYS \<and>
     0 \<le> transitionProgress st \<and> transitionProgress st \<le> 1"

text \<open>
  The shape of a frame is the linear interpolation between the table's shapes of
  \<^verbatim>\<open>transition.from\<close> and \<^verbatim>\<open>transition.to\<close> at \<^verbatim>\<open>transition.progress\<close>, and each of its
  fields is in [0,1].
\<close>

definition interpolated_shape :: "viseme_frame \<Rightarrow> bool" where
  "interpolated_shape f \<longleftrightarrow>
     (case map_of VISEME_SHAPES (from_viseme (transition f)) of
        None \<Rightarrow> False
      | Some a \<Rightarrow>
          (case map_of VISEME_SHAPES (to_viseme (transition f)) of
             None \<Rightarrow> False
           | Some b \<Rightarrow>
               open_s (shape f) = open_s a + (open_s b - open_s a) * progress (transition f) \<and>
               width_s (shape f) = width_s a + (width_s b - width_s a) * progress (transition f) \<and>
               round_s (shape f) = round_s a + (round_s b - round_s a) * progress (transition f))) \<and>
     0 \<le> open_s (shape f) \<and> open_s (shape f) \<le> 1 \<and>
     0 \<le> width_s (shape f) \<and> width_s (shape f) \<le> 1 \<and>
     0 \<le> round_s (shape f) \<and> round_s (shape f) \<le> 1"


section \<open>Properties of the ring buffer\<close>

subsection \<open>What the loops leave unchanged, and the bounds of \<open>available\<close>\<close>

lemma store_fields [simp]:
  "capacity (store x rb) = capacity rb" "readPtr (store x rb) = readPtr rb"
  "available (store x rb) = available rb" "length (buffer (store x rb)) = length (buffer rb)"
  by (simp_all add: store_def)

lemma write_loop_fields [simp]:
  "capacity (write_loop xs rb) = capacity rb \<and> readPtr (write_loop xs rb) = readPtr rb \<and>
   available (write_loop xs rb) = available rb \<and> length (buffer (write_loop xs rb)) = length (buffer rb)"
  by (induction xs arbitrary: rb) simp_all

lemma read_loop_fields:
  "capacity (snd (read_loop n j t rb)) = capacity rb \<and>
   available (snd (read_loop n j t rb)) = available rb \<and>
   buffer (snd (read_loop n j t rb)) = buffer rb \<and>
   writePtr (snd (read_loop n j t rb)) = writePtr rb"
  by (induction n arbitrary: j t rb) simp_all

lemma writeOverflow_loop_capacity:
  "capacity (snd (writeOverflow_loop xs k rb)) = capacity rb"
  by (induction xs arbitrary: k rb) simp_all



lemma read_fields:
  "capacity (snd (snd (read rb t off cnt))) = capacity rb"
  "available (snd (snd (read rb t off cnt))) =
     available rb - min (case cnt of Some c \<Rightarrow> c | None \<Rightarrow> int (length t) - off) (available rb)"
  using read_loop_fields [of "nat (min (case cnt of Some c \<Rightarrow> c | None \<Rightarrow> int (length t) - off) (available rb))" off t rb]
  by (simp_all add: read_def Let_def split_beta)

lemma apply_op_capacity: "capacity (apply_op rb op) = capacity rb"
  by (cases op)
    (simp_all add: write_rb_def writeOverflow_def read_fields readOne_def clear_def Let_def
      writeOverflow_loop_capacity)



lemma run_ops_capacity: "capacity (run_ops rb ops) = capacity rb"
  unfolding run_ops_def
  by (induction ops arbitrary: rb) (simp_all add: apply_op_capacity)



subsection \<open>The unread samples under a store\<close>

lemma mod_shift_inj_le:
  fixes r i j c :: nat
  assumes "i \<le> j" "j < c" "(r + i) mod c = (r + j) mod c"
  shows "i = j"
proof -
  have "c dvd (r + j) - (r + i)"
    using assms mod_eq_dvd_iff_nat [of "r + i" "r + j" c] by simp
  then have "c dvd j - i" by simp
  moreover have "j - i < c" using assms by simp
  ultimately have "j - i = 0" using nat_dvd_not_less by fastforce
  with assms show ?thesis by simp
qed

lemma mod_shift_inj:
  fixes r i j c :: nat
  assumes "i < c" "j < c" "(r + i) mod c = (r + j) mod c"
  shows "i = j"
proof (cases "i \<le> j")
  case True
  with assms show ?thesis using mod_shift_inj_le by blast
next
  case False
  then have "j \<le> i" by simp
  with assms show ?thesis using mod_shift_inj_le [of j i c r] by simp
qed

lemma length_contents [simp]: "length (contents rb) = nat (available rb)"
  by (simp add: contents_def)

lemma contents_empty [simp]: "available rb = 0 \<Longrightarrow> contents rb = []"
  by (simp add: contents_def)

lemma push_inv:
  assumes "rb_inv rb" "available rb < int (capacity rb)"
  shows "rb_inv (store x (rb\<lparr>available := available rb + 1\<rparr>))"
  using assms by (simp add: rb_inv_def store_def nat_add_distrib mod_Suc_eq)

lemma push_contents:
  assumes "rb_inv rb" "available rb < int (capacity rb)"
  shows "contents (store x (rb\<lparr>available := available rb + 1\<rparr>)) = contents rb @ [x]"
proof -
  let ?c = "capacity rb" and ?r = "readPtr rb" and ?a = "nat (available rb)"
  have a: "?a < ?c" "0 \<le> available rb" "length (buffer rb) = ?c"
    and w: "writePtr rb = (?r + ?a) mod ?c" and c: "0 < ?c"
    using assms by (auto simp: rb_inv_def)
  have old: "(buffer rb)[writePtr rb := x] ! ((?r + i) mod ?c) = buffer rb ! ((?r + i) mod ?c)"
    if "i < ?a" for i
  proof -
    have "(?r + i) mod ?c \<noteq> (?r + ?a) mod ?c"
      using that a mod_shift_inj [of i ?c ?a ?r] by auto
    then show ?thesis by (simp add: w)
  qed
  have new: "(buffer rb)[writePtr rb := x] ! ((?r + ?a) mod ?c) = x"
    using a c by (simp add: w)
  have "nat (available rb + 1) = Suc ?a" using a by simp
  then show ?thesis
    using old new by (simp add: contents_def store_def)
qed

lemma evict_inv:
  assumes "rb_inv rb" "available rb = int (capacity rb)"
  shows "rb_inv (store x (rb\<lparr>readPtr := (readPtr rb + 1) mod capacity rb\<rparr>))"
  using assms by (simp add: rb_inv_def store_def mod_Suc_eq)

lemma evict_contents:
  assumes "rb_inv rb" "available rb = int (capacity rb)"
  shows "contents (store x (rb\<lparr>readPtr := (readPtr rb + 1) mod capacity rb\<rparr>)) = tl (contents rb) @ [x]"
proof -
  let ?c = "capacity rb" and ?r = "readPtr rb"
  let ?rb = "store x (rb\<lparr>readPtr := (readPtr rb + 1) mod capacity rb\<rparr>)"
  have c: "0 < ?c" "length (buffer rb) = ?c" "?r < ?c" and w: "writePtr rb = ?r"
    using assms by (auto simp: rb_inv_def)
  have idx: "((?r + Suc 0) mod ?c + i) mod ?c = (?r + Suc i) mod ?c"
    "(Suc ?r mod ?c + i) mod ?c = (?r + Suc i) mod ?c" for i
    by (simp_all add: mod_add_left_eq)
  show ?thesis
  proof (rule nth_equalityI)
    show "length (contents ?rb) = length (tl (contents rb) @ [x])"
      using assms c by (simp add: store_def)
  next
    fix i assume "i < length (contents ?rb)"
    then have i: "i < ?c" using assms by (simp add: store_def)
    show "contents ?rb ! i = (tl (contents rb) @ [x]) ! i"
    proof (cases "Suc i < ?c")
      case True
      then have "(?r + Suc i) mod ?c \<noteq> (?r + 0) mod ?c"
        using mod_shift_inj [of "Suc i" ?c 0 ?r] c by auto
      then have "(buffer rb)[?r := x] ! ((?r + Suc i) mod ?c) = buffer rb ! ((?r + Suc i) mod ?c)"
        using c by simp
      moreover have "i < length (tl (contents rb))"
        using True assms by simp
      then have "(tl (contents rb) @ [x]) ! i = contents rb ! Suc i"
        by (simp add: nth_append nth_tl)
      ultimately show ?thesis
        using True i assms by (simp add: contents_def store_def w idx del: add_Suc_right)
    next
      case False
      with i have e: "Suc i = ?c" by simp
      then have "(?r + Suc i) mod ?c = ?r" using c by simp
      moreover have "i = length (tl (contents rb))"
        using e assms by simp
      then have "(tl (contents rb) @ [x]) ! i = x"
        by (simp only: nth_append_length)
      ultimately show ?thesis
        using i assms c by (simp add: contents_def store_def w idx del: add_Suc_right)
    qed
  qed
qed

lemma store_available_update:
  "store x (rb\<lparr>available := v\<rparr>) = (store x rb)\<lparr>available := v\<rparr>"
  by (simp add: store_def)

lemma write_loop_available_update:
  "write_loop xs (rb\<lparr>available := v\<rparr>) = (write_loop xs rb)\<lparr>available := v\<rparr>"
  by (induction xs arbitrary: rb) (simp_all add: store_available_update)

lemma write_loop_contents:
  assumes "rb_inv rb" "int (length xs) \<le> free rb"
  shows "rb_inv ((write_loop xs rb)\<lparr>available := available rb + int (length xs)\<rparr>) \<and>
         contents ((write_loop xs rb)\<lparr>available := available rb + int (length xs)\<rparr>) =
           contents rb @ xs"
  using assms
proof (induction xs arbitrary: rb)
  case Nil
  then show ?case by simp
next
  case (Cons x xs)
  let ?rb1 = "store x (rb\<lparr>available := available rb + 1\<rparr>)"
  have lt: "available rb < int (capacity rb)"
    using Cons.prems by (simp add: free_def)
  have inv1: "rb_inv ?rb1"
    by (rule push_inv [OF Cons.prems(1) lt])
  have c1: "contents ?rb1 = contents rb @ [x]"
    by (rule push_contents [OF Cons.prems(1) lt])
  have "int (length xs) \<le> free ?rb1"
    using Cons.prems by (simp add: free_def)
  from Cons.IH [OF inv1 this]
  have ih: "rb_inv ((write_loop xs ?rb1)\<lparr>available := available ?rb1 + int (length xs)\<rparr>) \<and>
        contents ((write_loop xs ?rb1)\<lparr>available := available ?rb1 + int (length xs)\<rparr>) =
          contents ?rb1 @ xs" .
  have e1: "available ?rb1 + int (length xs) = available rb + int (length (x # xs))"
    by simp
  have e2: "(write_loop xs ?rb1)\<lparr>available := v\<rparr> = (write_loop (x # xs) rb)\<lparr>available := v\<rparr>" for v
    by (simp add: store_available_update write_loop_available_update)
  show ?case
    using ih unfolding e1 e2 c1 by simp
qed

lemma upt_map_shift:
  "map f [0..<Suc n] = f 0 # map (\<lambda>i. f (Suc i)) [0..<n]"
  by (induction n) simp_all

lemma mod_succ_shift:
  "(Suc p mod c + i) mod c = Suc (p + i) mod c"
  by (simp add: mod_add_left_eq)

lemma peek_loop_map:
  "peek_loop n ptr rb = map (\<lambda>i. buffer rb ! ((ptr + i) mod capacity rb)) [0..<n]"
  if "ptr < capacity rb"
  using that
proof (induction n arbitrary: ptr)
  case 0
  show ?case by simp
next
  case (Suc n)
  let ?f = "\<lambda>i. buffer rb ! ((ptr + i) mod capacity rb)"
  have lt: "Suc ptr mod capacity rb < capacity rb"
    using Suc.prems by (intro mod_less_divisor) simp
  have "peek_loop n (Suc ptr mod capacity rb) rb =
      map (\<lambda>i. buffer rb ! ((Suc ptr mod capacity rb + i) mod capacity rb)) [0..<n]"
    by (rule Suc.IH [OF lt])
  also have "\<dots> = map (\<lambda>i. ?f (Suc i)) [0..<n]"
    by (simp only: mod_succ_shift add_Suc_right)
  finally have "peek_loop n (Suc ptr mod capacity rb) rb = map (\<lambda>i. ?f (Suc i)) [0..<n]" .
  moreover have "?f 0 = buffer rb ! ptr" using Suc.prems by simp
  ultimately have "peek_loop (Suc n) ptr rb = ?f 0 # map (\<lambda>i. ?f (Suc i)) [0..<n]"
    by (simp only: peek_loop.simps Suc_eq_plus1 [symmetric])
  also have "\<dots> = map ?f [0..<Suc n]"
    by (rule upt_map_shift [symmetric])
  finally show ?case .
qed

lemma read_loop_snd:
  "readPtr rb < capacity rb \<Longrightarrow>
   snd (read_loop n j t rb) = rb\<lparr>readPtr := (readPtr rb + n) mod capacity rb\<rparr>"
proof (induction n arbitrary: j t rb)
  case 0
  then show ?case by simp
next
  case (Suc n)
  let ?rb1 = "rb\<lparr>readPtr := Suc (readPtr rb) mod capacity rb\<rparr>"
  have lt: "readPtr ?rb1 < capacity ?rb1"
    using Suc.prems by simp
  have "snd (read_loop n (j + 1) (typed_set t j (buffer rb ! readPtr rb)) ?rb1) =
        ?rb1\<lparr>readPtr := (readPtr ?rb1 + n) mod capacity ?rb1\<rparr>"
    by (rule Suc.IH [OF lt])
  then show ?case by (simp add: mod_succ_shift)
qed

lemma read_loop_fst:
  "readPtr rb < capacity rb \<Longrightarrow> k + n \<le> length t \<Longrightarrow>
   fst (read_loop n (int k) t rb) =
     take k t @ map (\<lambda>i. buffer rb ! ((readPtr rb + i) mod capacity rb)) [0..<n] @ drop (k + n) t"
proof (induction n arbitrary: k t rb)
  case 0
  then show ?case by simp
next
  case (Suc n)
  let ?f = "\<lambda>i. buffer rb ! ((readPtr rb + i) mod capacity rb)"
  let ?rb1 = "rb\<lparr>readPtr := Suc (readPtr rb) mod capacity rb\<rparr>"
  let ?t1 = "t[k := buffer rb ! readPtr rb]"
  have lt: "readPtr ?rb1 < capacity ?rb1"
    using Suc.prems by simp
  have len: "Suc k + n \<le> length ?t1"
    using Suc.prems by simp
  have ts: "typed_set t (int k) (buffer rb ! readPtr rb) = ?t1"
    using Suc.prems by (simp add: typed_set_def)
  have "fst (read_loop n (int (Suc k)) ?t1 ?rb1) =
      take (Suc k) ?t1 @ map (\<lambda>i. buffer ?rb1 ! ((readPtr ?rb1 + i) mod capacity ?rb1)) [0..<n]
        @ drop (Suc k + n) ?t1"
    by (rule Suc.IH [OF lt len])
  also have "take (Suc k) ?t1 = take k t @ [?f 0]"
    using Suc.prems by (simp add: take_Suc_conv_app_nth)
  also have "map (\<lambda>i. buffer ?rb1 ! ((readPtr ?rb1 + i) mod capacity ?rb1)) [0..<n] =
      map (\<lambda>i. ?f (Suc i)) [0..<n]"
    by (simp add: mod_succ_shift)
  also have "drop (Suc k + n) ?t1 = drop (k + Suc n) t"
    by simp
  finally have "fst (read_loop n (int (Suc k)) ?t1 ?rb1) =
      take k t @ (?f 0 # map (\<lambda>i. ?f (Suc i)) [0..<n]) @ drop (k + Suc n) t"
    by simp
  then have "fst (read_loop n (int (Suc k)) ?t1 ?rb1) =
      take k t @ map ?f [0..<Suc n] @ drop (k + Suc n) t"
    by (simp only: upt_map_shift)
  moreover have "read_loop (Suc n) (int k) t rb = read_loop n (int (Suc k)) ?t1 ?rb1"
    by (simp add: ts add.commute)
  ultimately show ?case by (simp only:)
qed

lemma writeOverflow_loop_spec:
  assumes "rb_inv rb"
  shows "rb_inv (snd (writeOverflow_loop xs k rb)) \<and>
         capacity (snd (writeOverflow_loop xs k rb)) = capacity rb \<and>
         contents (snd (writeOverflow_loop xs k rb)) =
           drop (nat (available rb) + length xs - capacity rb) (contents rb @ xs) \<and>
         available (snd (writeOverflow_loop xs k rb)) =
           min (int (capacity rb)) (available rb + int (length xs)) \<and>
         fst (writeOverflow_loop xs k rb) =
           k + max 0 (available rb + int (length xs) - int (capacity rb))"
  using assms
proof (induction xs arbitrary: k rb)
  case Nil
  then have "nat (available rb) - capacity rb = 0" "0 \<le> available rb" "available rb \<le> int (capacity rb)"
    by (auto simp add: rb_inv_def)
  with Nil show ?case by simp
next
  case (Cons x xs)
  have bounds: "0 \<le> available rb" "available rb \<le> int (capacity rb)" "0 < capacity rb"
    using Cons.prems by (simp_all add: rb_inv_def)
  show ?case
  proof (cases "available rb \<ge> int (capacity rb)")
    case True
    with bounds have full: "available rb = int (capacity rb)" by simp
    let ?rb1 = "store x (rb\<lparr>readPtr := (readPtr rb + 1) mod capacity rb\<rparr>)"
    let ?R = "writeOverflow_loop xs (k + 1) ?rb1"
    have inv1: "rb_inv ?rb1"
      by (rule evict_inv [OF Cons.prems full])
    have c1: "contents ?rb1 = tl (contents rb) @ [x]"
      by (rule evict_contents [OF Cons.prems full])
    have f1: "capacity ?rb1 = capacity rb" "available ?rb1 = int (capacity rb)"
      using full by simp_all
    have ne: "contents rb \<noteq> []"
      using full bounds by (simp add: contents_def)
    have dr: "drop (length xs) (tl (contents rb) @ x # xs) =
        drop (Suc (length xs)) (contents rb @ x # xs)"
      using ne by (cases "contents rb") simp_all
    have step: "writeOverflow_loop (x # xs) k rb = ?R"
      using True by simp
    note ih = Cons.IH [OF inv1, of "k + 1", unfolded f1 c1]
    have "contents (snd ?R) = drop (length xs) (tl (contents rb) @ x # xs)"
      using ih by simp
    then have "contents (snd ?R) =
        drop (nat (available rb) + length (x # xs) - capacity rb) (contents rb @ x # xs)"
      using full by (simp only: dr) simp
    moreover have "available (snd ?R) = min (int (capacity rb)) (available rb + int (length (x # xs)))"
      using ih full by simp
    moreover have "fst ?R = k + max 0 (available rb + int (length (x # xs)) - int (capacity rb))"
      using ih full by simp
    ultimately show ?thesis
      using ih unfolding step by (simp only:)
  next
    case False
    then have lt: "available rb < int (capacity rb)" by simp
    let ?rb1 = "store x (rb\<lparr>available := available rb + 1\<rparr>)"
    let ?R = "writeOverflow_loop xs k ?rb1"
    have inv1: "rb_inv ?rb1"
      by (rule push_inv [OF Cons.prems lt])
    have c1: "contents ?rb1 = contents rb @ [x]"
      by (rule push_contents [OF Cons.prems lt])
    have f1: "capacity ?rb1 = capacity rb" "available ?rb1 = available rb + 1"
      by simp_all
    have step: "writeOverflow_loop (x # xs) k rb = ?R"
      using False by simp
    have n1: "nat (available rb + 1) + length xs = nat (available rb) + length (x # xs)"
      using bounds by simp
    note ih = Cons.IH [OF inv1, of k, unfolded f1 c1 n1]
    have "contents (snd ?R) =
        drop (nat (available rb) + length (x # xs) - capacity rb) (contents rb @ x # xs)"
      using ih by simp
    moreover have "available (snd ?R) = min (int (capacity rb)) (available rb + int (length (x # xs)))"
      using ih by simp
    moreover have "fst ?R = k + max 0 (available rb + int (length (x # xs)) - int (capacity rb))"
      using ih by simp
    ultimately show ?thesis
      using ih unfolding step by (simp only:)
  qed
qed

lemma peek_contents:
  assumes "rb_inv rb" "available rb \<le> count"
  shows "peek rb count = Inr (contents rb)"
proof -
  have "readPtr rb < capacity rb" "0 \<le> available rb"
    using assms by (simp_all add: rb_inv_def)
  then show ?thesis
    using assms(2) by (simp add: peek_def contents_def peek_loop_map min_def)
qed

subsection \<open>Every operation keeps the buffer consistent\<close>

lemma rb_inv_RingBuffer: "0 < c \<Longrightarrow> rb_inv (RingBuffer c)"
  by (simp add: rb_inv_def RingBuffer_def)

lemma write_rb_spec:
  assumes "rb_inv rb"
  shows "rb_inv (snd (write_rb rb samples))"
    and "contents (snd (write_rb rb samples)) = contents rb @ take (nat (free rb)) samples"
    and "fst (write_rb rb samples) = min (int (length samples)) (free rb)"
proof -
  let ?n = "min (int (length samples)) (free rb)"
  let ?xs = "take (nat ?n) samples"
  have fr: "0 \<le> free rb" using assms by (simp add: rb_inv_def free_def)
  then have len: "int (length ?xs) = ?n" by simp
  then have le: "int (length ?xs) \<le> free rb" by simp
  have tk: "?xs = take (nat (free rb)) samples"
    by (simp add: min_def)
  have w: "snd (write_rb rb samples) = (write_loop ?xs rb)\<lparr>available := available rb + int (length ?xs)\<rparr>"
    unfolding len by (simp add: write_rb_def Let_def)
  show "rb_inv (snd (write_rb rb samples))"
    unfolding w using write_loop_contents [OF assms le] by (simp only:)
  show "contents (snd (write_rb rb samples)) = contents rb @ take (nat (free rb)) samples"
    unfolding w using write_loop_contents [OF assms le] tk by (simp only:)
  show "fst (write_rb rb samples) = ?n"
    by (simp add: write_rb_def Let_def)
qed

lemma read_spec:
  assumes "rb_inv rb" and "0 \<le> n" and "n \<le> available rb"
    and "(case count of Some c \<Rightarrow> c | None \<Rightarrow> int (length target) - offset) = m"
    and "min m (available rb) = n"
  shows "rb_inv (snd (snd (read rb target offset count)))"
    and "fst (read rb target offset count) = n"
    and "available (snd (snd (read rb target offset count))) = available rb - n"
proof -
  have r: "readPtr rb < capacity rb" and c: "0 < capacity rb"
    and w: "writePtr rb = (readPtr rb + nat (available rb)) mod capacity rb"
    and len: "length (buffer rb) = capacity rb" and up: "available rb \<le> int (capacity rb)"
    using assms(1) by (simp_all add: rb_inv_def)
  have s: "snd (snd (read rb target offset count)) =
      rb\<lparr>readPtr := (readPtr rb + nat n) mod capacity rb, available := available rb - n\<rparr>"
    using read_loop_snd [OF r, of "nat n" offset target] assms(4,5)
    by (simp add: read_def Let_def split_beta)
  have "nat (available rb) = nat n + nat (available rb - n)"
    using assms(2,3) by simp
  then have "(readPtr rb + nat (available rb)) mod capacity rb =
      ((readPtr rb + nat n) mod capacity rb + nat (available rb - n)) mod capacity rb"
    by (simp add: mod_add_left_eq add.assoc)
  then show "rb_inv (snd (snd (read rb target offset count)))"
    unfolding s using assms(2,3) c w len up by (simp add: rb_inv_def)
  show "fst (read rb target offset count) = n"
    using assms(4,5) by (simp add: read_def Let_def split_beta)
  show "available (snd (snd (read rb target offset count))) = available rb - n"
    unfolding s by simp
qed

lemma readOne_inv:
  assumes "rb_inv rb"
  shows "rb_inv (snd (readOne rb))"
proof (cases "available rb = 0")
  case True
  with assms show ?thesis by (simp add: readOne_def)
next
  case False
  have c: "0 < capacity rb" and a: "0 \<le> available rb" "available rb \<le> int (capacity rb)"
    and w: "writePtr rb = (readPtr rb + nat (available rb)) mod capacity rb"
    and len: "length (buffer rb) = capacity rb"
    using assms by (simp_all add: rb_inv_def)
  from False a have "nat (available rb) = Suc (nat (available rb - 1))" by simp
  then have "(readPtr rb + nat (available rb)) mod capacity rb =
      (Suc (readPtr rb) mod capacity rb + nat (available rb - 1)) mod capacity rb"
    by (simp add: mod_succ_shift)
  then show ?thesis
    using False c a w len by (simp add: readOne_def rb_inv_def)
qed

lemma clear_inv: "rb_inv rb \<Longrightarrow> rb_inv (clear rb)"
  by (simp add: rb_inv_def clear_def)

lemma apply_op_inv:
  assumes "rb_inv rb" and "0 \<le> requested op"
  shows "rb_inv (apply_op rb op)"
proof (cases op)
  case (Write xs)
  then show ?thesis using write_rb_spec(1) [OF assms(1)] by simp
next
  case (WriteOverflow xs)
  then show ?thesis
    using writeOverflow_loop_spec [OF assms(1), of xs 0] by (simp add: writeOverflow_def)
next
  case (Read t off cnt)
  have a: "0 \<le> available rb" using assms(1) by (simp add: rb_inv_def)
  let ?m = "case cnt of Some c \<Rightarrow> c | None \<Rightarrow> int (length t) - off"
  have m: "0 \<le> ?m" using assms(2) by (simp add: Read)
  have "rb_inv (snd (snd (read rb t off cnt)))"
  proof (rule read_spec(1) [OF assms(1)])
    show "0 \<le> min ?m (available rb)" using m a by simp
    show "min ?m (available rb) \<le> available rb" by simp
    show "?m = ?m" ..
    show "min ?m (available rb) = min ?m (available rb)" ..
  qed
  then show ?thesis by (simp only: Read apply_op.simps)
next
  case ReadOne
  then show ?thesis using readOne_inv [OF assms(1)] by simp
next
  case (Peek n)
  then show ?thesis using assms(1) by simp
next
  case Clear
  then show ?thesis using clear_inv [OF assms(1)] by simp
qed

lemma run_ops_inv:
  "rb_inv rb \<Longrightarrow> \<forall>op \<in> set ops. 0 \<le> requested op \<Longrightarrow> rb_inv (run_ops rb ops)"
  unfolding run_ops_def
  by (induction ops arbitrary: rb) (simp_all add: apply_op_inv)

section \<open>The claims about the ring buffer\<close>



text \<open>
  Claim C2, as the code has it. For every consistent buffer (\<open>rb_inv\<close>: what the
  constructor establishes and the operations keep, \<open>run_ops_inv\<close>) that holds no unread
  sample (\<^verbatim>\<open>available = 0\<close>) and every sample array \<open>s\<close> no longer than the free space,
  \<^verbatim>\<open>write(s)\<close> followed by \<^verbatim>\<open>read\<close> into a destination of length \<^verbatim>\<open>s.length\<close> reads
  \<^verbatim>\<open>s.length\<close> samples and leaves exactly \<open>s\<close> in the destination, in order. (With unread
  samples in the buffer the read returns the oldest of them first: the buffer is first in,
  first out.)
\<close>

theorem write_then_read_fifo:
  assumes "rb_inv rb" and "available rb = 0" and "int (length s) \<le> free rb"
    and "length target = length s"
  shows "fst (read (snd (write_rb rb s)) target 0 None) = int (length s) \<and>
         fst (snd (read (snd (write_rb rb s)) target 0 None)) = s"
proof -
  let ?rb1 = "snd (write_rb rb s)"
  have tk: "take (nat (free rb)) s = s" using assms(3) by simp
  have inv1: "rb_inv ?rb1" and c1: "contents ?rb1 = s"
    using write_rb_spec(1,2) [OF assms(1), of s] assms(2) tk by simp_all
  have a1: "available ?rb1 = int (length s)"
    using assms(2,3) by (simp add: write_rb_def Let_def min_def)
  have r: "readPtr ?rb1 < capacity ?rb1" using inv1 by (simp add: rb_inv_def)
  have "fst (read_loop (length s) (int 0) target ?rb1) =
      take 0 target @ map (\<lambda>i. buffer ?rb1 ! ((readPtr ?rb1 + i) mod capacity ?rb1)) [0..<length s]
        @ drop (0 + length s) target"
    using assms(4) by (intro read_loop_fst [OF r]) simp
  also have "\<dots> = contents ?rb1"
    using assms(4) a1 by (simp add: contents_def)
  finally have "fst (read_loop (length s) 0 target ?rb1) = s"
    using c1 by simp
  then show ?thesis
    using a1 assms(4) by (simp add: read_def Let_def split_beta)
qed

theorem write_then_read_fifo_witness:
  "rb_inv (run_ops (RingBuffer 3 :: int ring_buffer) [Write [1, 2], Read [0, 0] 0 None]) \<and>
   available (run_ops (RingBuffer 3 :: int ring_buffer) [Write [1, 2], Read [0, 0] 0 None]) = 0 \<and>
   int (length [7, 8 :: int]) \<le>
     free (run_ops (RingBuffer 3 :: int ring_buffer) [Write [1, 2], Read [0, 0] 0 None]) \<and>
   fst (snd (read
     (snd (write_rb (run_ops (RingBuffer 3 :: int ring_buffer) [Write [1, 2], Read [0, 0] 0 None])
        [7, 8]))
     [0, 0] 0 None)) = [7, 8]"
proof -
  let ?rb = "run_ops (RingBuffer 3 :: int ring_buffer) [Write [1, 2], Read [0, 0] 0 None]"
  have rb: "?rb = \<lparr>buffer = [1, 2, 0], capacity = 3, readPtr = 2, writePtr = 2, available = 0\<rparr>"
    by code_simp
  have h: "rb_inv ?rb" "available ?rb = 0" "int (length [7, 8 :: int]) \<le> free ?rb"
    "length [0, 0 :: int] = length [7, 8 :: int]"
    unfolding rb by (simp_all add: rb_inv_def free_def)
  show ?thesis
    using h write_then_read_fifo [OF h] by simp
qed

text \<open>
  The claim as stated fails for a buffer that already holds a sample: after \<^verbatim>\<open>write([1])\<close>
  on a fresh buffer of capacity 2, \<^verbatim>\<open>write([2])\<close> fits the free space, and the \<^verbatim>\<open>read\<close> of
  length 1 that follows returns the older sample 1, not the 2 just written.
\<close>

theorem write_then_read_returns_older:
  "\<not> (int (length [2 :: int]) \<le> free (snd (write_rb (RingBuffer 2 :: int ring_buffer) [1])) \<longrightarrow>
      fst (snd (read (snd (write_rb (snd (write_rb (RingBuffer 2 :: int ring_buffer) [1])) [2]))
        [0] 0 None)) = [2])"
  by code_simp

text \<open>
  Claim C3. For every consistent buffer of capacity \<open>C\<close> and every input of \<open>N > C\<close>
  samples, \<^verbatim>\<open>writeOverflow\<close> leaves \<^verbatim>\<open>available = C\<close>, the buffer then holds exactly the last
  \<open>C\<close> samples of the input in order (what \<^verbatim>\<open>peek(C)\<close> returns), and the overwritten count
  it returns is \<open>N - C\<close> when the buffer started empty and \<open>N\<close> when it started full.
\<close>

theorem writeOverflow_keeps_last:
  assumes "rb_inv rb" and "capacity rb < length samples"
  shows "available (snd (writeOverflow rb samples)) = int (capacity rb) \<and>
         peek (snd (writeOverflow rb samples)) (int (capacity rb)) =
           Inr (drop (length samples - capacity rb) samples) \<and>
         (available rb = 0 \<longrightarrow>
            fst (writeOverflow rb samples) = int (length samples) - int (capacity rb)) \<and>
         (available rb = int (capacity rb) \<longrightarrow>
            fst (writeOverflow rb samples) = int (length samples))"
proof -
  let ?rb' = "snd (writeOverflow rb samples)"
  have bounds: "0 \<le> available rb" "available rb \<le> int (capacity rb)"
    using assms(1) by (simp_all add: rb_inv_def)
  note spec = writeOverflow_loop_spec [OF assms(1), of samples 0, folded writeOverflow_def]
  have av: "available ?rb' = int (capacity rb)"
    using spec assms(2) bounds by simp
  have "contents ?rb' = drop (length samples - capacity rb) samples"
    using spec assms(2) bounds by simp
  moreover have "peek ?rb' (int (capacity rb)) = Inr (contents ?rb')"
    using spec av by (intro peek_contents) simp_all
  ultimately show ?thesis
    using spec av assms(2) by simp
qed

theorem writeOverflow_keeps_last_witness:
  "rb_inv (RingBuffer 2 :: int ring_buffer) \<and>
   capacity (RingBuffer 2 :: int ring_buffer) < length [1, 2, 3 :: int] \<and>
   available (snd (writeOverflow (RingBuffer 2) [1, 2, 3 :: int])) = 2 \<and>
   peek (snd (writeOverflow (RingBuffer 2) [1, 2, 3 :: int])) 2 = Inr [2, 3] \<and>
   fst (writeOverflow (RingBuffer 2) [1, 2, 3 :: int]) = 1 \<and>
   rb_inv (snd (write_rb (RingBuffer 2 :: int ring_buffer) [8, 9])) \<and>
   available (snd (write_rb (RingBuffer 2 :: int ring_buffer) [8, 9])) = 2 \<and>
   peek (snd (writeOverflow (snd (write_rb (RingBuffer 2) [8, 9])) [1, 2, 3 :: int])) 2 = Inr [2, 3] \<and>
   fst (writeOverflow (snd (write_rb (RingBuffer 2) [8, 9])) [1, 2, 3 :: int]) = 3"
proof -
  have h: "rb_inv (RingBuffer 2 :: int ring_buffer)"
    "capacity (RingBuffer 2 :: int ring_buffer) < length [1, 2, 3 :: int]"
    by (simp_all add: rb_inv_def RingBuffer_def)
  have e: "available (RingBuffer 2 :: int ring_buffer) = 0" "capacity (RingBuffer 2 :: int ring_buffer) = 2"
    by (simp_all add: RingBuffer_def)
  let ?full = "snd (write_rb (RingBuffer 2 :: int ring_buffer) [8, 9])"
  have full: "?full = \<lparr>buffer = [8, 9], capacity = 2, readPtr = 0, writePtr = 0, available = 2\<rparr>"
    by code_simp
  have g: "rb_inv ?full" "capacity ?full < length [1, 2, 3 :: int]"
    unfolding full by (simp_all add: rb_inv_def)
  have a: "available ?full = 2" "capacity ?full = 2"
    unfolding full by simp_all
  show ?thesis
    using h writeOverflow_keeps_last [OF h] e g writeOverflow_keeps_last [OF g] a by simp
qed

section \<open>Properties of the analyzer\<close>

subsection \<open>The tables\<close>

lemma keys_eq:
  "EXTENDED_VISEME_KEYS = [''sil'', ''PP'', ''FF'', ''TH'', ''DD'', ''kk'', ''CH'', ''SS'', ''nn'',
     ''RR'', ''aa'', ''E'', ''I'', ''O'', ''U'']"
  by (simp add: EXTENDED_VISEME_KEYS_def EXTENDED_VISEMES_def)

lemma simple_keys_eq: "SIMPLE_VISEME_KEYS = [''A'', ''B'', ''C'', ''D'', ''E'', ''F'']"
  by (simp add: SIMPLE_VISEME_KEYS_def SIMPLE_VISEMES_def)

lemma sil_key: "''sil'' \<in> set EXTENDED_VISEME_KEYS"
  by (simp add: keys_eq)

lemma weight_le: "getTransitionWeight f t \<le> 1"
  by (simp add: getTransitionWeight_def TRANSITION_WEIGHTS_def)

lemma shape_of_bounds:
  "0 \<le> open_s (shape_of v) \<and> open_s (shape_of v) \<le> 1 \<and>
   0 \<le> width_s (shape_of v) \<and> width_s (shape_of v) \<le> 1 \<and>
   0 \<le> round_s (shape_of v) \<and> round_s (shape_of v) \<le> 1"
  by (simp add: shape_of_def VISEME_SHAPES_def)

lemma shape_of_table:
  "v \<in> set EXTENDED_VISEME_KEYS \<Longrightarrow> map_of VISEME_SHAPES v = Some (shape_of v)"
  by (auto simp add: keys_eq shape_of_def VISEME_SHAPES_def)

lemma simple_of_table:
  "v \<in> set EXTENDED_VISEME_KEYS \<Longrightarrow> \<exists>k \<in> set SIMPLE_VISEME_KEYS. EXTENDED_TO_SIMPLE v = Some k"
  by (auto simp add: keys_eq simple_keys_eq EXTENDED_TO_SIMPLE_def SIMPLE_VISEMES_def)

lemma lerp_bounds:
  fixes a b t :: real
  assumes "0 \<le> a" "a \<le> 1" "0 \<le> b" "b \<le> 1" "0 \<le> t" "t \<le> 1"
  shows "0 \<le> a + (b - a) * t" "a + (b - a) * t \<le> 1"
proof -
  have e: "a + (b - a) * t = (1 - t) * a + t * b" by (simp add: algebra_simps)
  have "0 \<le> (1 - t) * a" "0 \<le> t * b" using assms by simp_all
  then show "0 \<le> a + (b - a) * t" unfolding e by simp
  have "(1 - t) * a \<le> (1 - t) * 1"
    using assms by (intro mult_left_mono) simp_all
  moreover have "t * b \<le> t * 1"
    using assms by (intro mult_left_mono) simp_all
  ultimately show "a + (b - a) * t \<le> 1" unfolding e by simp
qed

subsection \<open>The classifier\<close>

lemma classify_not_None: "classifyViseme st b i \<noteq> None"
proof
  assume a: "classifyViseme st b i = None"
  show False
  proof (cases "sub b + low b + mid b + high b + veryHigh b < 0.01")
    case True
    with a show False by (simp add: classifyViseme_def)
  next
    case False
    then have "sub b + low b + mid b + high b + veryHigh b + 0.001 \<noteq> 0" by simp
    with a False show False
      by (simp add: classifyViseme_def js_div_def Let_def split: if_splits)
  qed
qed

lemma classify_total: "\<exists>v c. classifyViseme st b i = Some (v, c)"
  using classify_not_None [of st b i] by (cases "classifyViseme st b i") auto

lemma classify_label:
  assumes "classifyViseme st b i = Some (v, c)"
  shows "v \<in> set EXTENDED_VISEME_KEYS"
  using assms
  by (auto simp add: classifyViseme_def js_div_def Let_def keys_eq split: if_splits)

lemma ratio_bounds:
  fixes x t :: real
  assumes "0 \<le> x" "x \<le> t"
  shows "0 \<le> x / (t + 0.001)" "x / (t + 0.001) \<le> 1"
  using assms by (simp_all add: divide_le_eq)

lemma classify_confidence:
  assumes "bands_nonneg b" "classifyViseme st b i = Some (v, c)"
  shows "0 \<le> c \<and> c \<le> 1"
  using assms
  by (auto simp add: classifyViseme_def js_div_def Let_def bands_nonneg_def
      zero_le_divide_iff divide_le_eq_1 split: if_splits)

subsection \<open>The frame builder, the hold-off and the runs\<close>

lemma emit_state:
  "currentViseme (snd (emitViseme st v i b c)) = v"
  "holdCounter (snd (emitViseme st v i b c)) = holdCounter st"
  "opts (snd (emitViseme st v i b c)) = opts st"
  "smoothedBands (snd (emitViseme st v i b c)) = smoothedBands st"
  "previousViseme (snd (emitViseme st v i b c)) =
     (if v \<noteq> currentViseme st then currentViseme st else previousViseme st)"
  "transitionProgress (snd (emitViseme st v i b c)) =
     (if v \<noteq> currentViseme st then 0
      else min 1 (transitionProgress st +
             (1 - getTransitionWeight (previousViseme st) (currentViseme st)) * 0.3))"
  by (simp_all add: emitViseme_def Let_def)

lemma emit_frame:
  "viseme (fst (emitViseme st v i b c)) = v"
  "confidence (fst (emitViseme st v i b c)) = c"
  "intensity (fst (emitViseme st v i b c)) =
     smoothValue (currentIntensity st) i (intensitySmoothing (opts st))"
  "simpleViseme (fst (emitViseme st v i b c)) =
     (case EXTENDED_TO_SIMPLE v of Some k \<Rightarrow> k | None \<Rightarrow> ''A'')"
  "from_viseme (transition (fst (emitViseme st v i b c))) = previousViseme (snd (emitViseme st v i b c))"
  "to_viseme (transition (fst (emitViseme st v i b c))) = v"
  "progress (transition (fst (emitViseme st v i b c))) = transitionProgress (snd (emitViseme st v i b c))"
  by (simp_all add: emitViseme_def Let_def)

lemma emit_shape:
  "open_s (shape (fst (emitViseme st v i b c))) =
     open_s (shape_of (from_viseme (transition (fst (emitViseme st v i b c))))) +
     (open_s (shape_of (to_viseme (transition (fst (emitViseme st v i b c))))) -
      open_s (shape_of (from_viseme (transition (fst (emitViseme st v i b c)))))) *
     progress (transition (fst (emitViseme st v i b c)))"
  "width_s (shape (fst (emitViseme st v i b c))) =
     width_s (shape_of (from_viseme (transition (fst (emitViseme st v i b c))))) +
     (width_s (shape_of (to_viseme (transition (fst (emitViseme st v i b c))))) -
      width_s (shape_of (from_viseme (transition (fst (emitViseme st v i b c)))))) *
     progress (transition (fst (emitViseme st v i b c)))"
  "round_s (shape (fst (emitViseme st v i b c))) =
     round_s (shape_of (from_viseme (transition (fst (emitViseme st v i b c))))) +
     (round_s (shape_of (to_viseme (transition (fst (emitViseme st v i b c))))) -
      round_s (shape_of (from_viseme (transition (fst (emitViseme st v i b c)))))) *
     progress (transition (fst (emitViseme st v i b c)))"
  by (simp_all add: emitViseme_def Let_def)

lemma emit_inv:
  assumes "an_inv st" "v \<in> set EXTENDED_VISEME_KEYS"
  shows "an_inv (snd (emitViseme st v i b c))"
proof -
  have "0 \<le> (1 - getTransitionWeight (previousViseme st) (currentViseme st)) * 0.3"
    using weight_le [of "previousViseme st" "currentViseme st"] by simp
  then show ?thesis
    using assms by (simp add: an_inv_def emit_state)
qed

lemma smoothInputs_fields:
  "currentViseme (smoothInputs st a b) = currentViseme st"
  "previousViseme (smoothInputs st a b) = previousViseme st"
  "transitionProgress (smoothInputs st a b) = transitionProgress st"
  "holdCounter (smoothInputs st a b) = holdCounter st"
  "opts (smoothInputs st a b) = opts st"
  "smoothedAmplitude (smoothInputs st a b) =
     smoothValue (smoothedAmplitude st) a (smoothingFactor (opts st))"
  by (simp_all add: smoothInputs_def Let_def)

lemma smoothInputs_inv: "an_inv (smoothInputs st a b) = an_inv st"
  by (simp add: an_inv_def smoothInputs_fields)

lemma holdOff_cases:
  "holdOff st v c i b =
     (if v = currentViseme st then emitViseme (st\<lparr>holdCounter := 0\<rparr>) v i b c
      else if real_of_int (holdCounter st + 1) < holdFrames (opts st)
      then emitViseme (st\<lparr>holdCounter := holdCounter st + 1\<rparr>) (currentViseme st) i b 0.5
      else emitViseme (st\<lparr>holdCounter := 0\<rparr>) v i b c)"
  by (simp add: holdOff_def Let_def)

lemma holdOff_state:
  "currentViseme (snd (holdOff st v c i b)) =
     (if v \<noteq> currentViseme st \<and> \<not> real_of_int (holdCounter st + 1) < holdFrames (opts st)
      then v else currentViseme st)"
  "holdCounter (snd (holdOff st v c i b)) =
     (if v \<noteq> currentViseme st \<and> real_of_int (holdCounter st + 1) < holdFrames (opts st)
      then holdCounter st + 1 else 0)"
  "opts (snd (holdOff st v c i b)) = opts st"
  by (simp_all add: holdOff_cases emit_state)

lemma holdOff_inv:
  assumes "an_inv st" "v \<in> set EXTENDED_VISEME_KEYS"
  shows "an_inv (snd (holdOff st v c i b))"
proof -
  have "an_inv (st\<lparr>holdCounter := n\<rparr>)" for n
    using assms(1) by (simp add: an_inv_def)
  moreover have "currentViseme st \<in> set EXTENDED_VISEME_KEYS"
    using assms(1) by (simp add: an_inv_def)
  ultimately show ?thesis
    using assms(2) by (simp add: holdOff_cases emit_inv)
qed

lemma analyze_Some: "\<exists>f st'. analyze st a b = Some (f, st')"
proof -
  obtain v c where "classifyViseme (smoothInputs st a b) (smoothedBands (smoothInputs st a b))
      (clamp (smoothedAmplitude (smoothInputs st a b) * 3) 0 1) = Some (v, c)"
    using classify_total by blast
  then show ?thesis
    by (cases "holdOff (smoothInputs st a b) v c (clamp (smoothedAmplitude (smoothInputs st a b) * 3) 0 1)
          (smoothedBands (smoothInputs st a b))")
       (simp add: analyze_def Let_def prod_eq_iff)
qed

lemma analyze_inv:
  assumes "an_inv st" "analyze st a b = Some (f, st')"
  shows "an_inv st'"
proof -
  let ?st1 = "smoothInputs st a b"
  have inv1: "an_inv ?st1" using assms(1) by (simp add: smoothInputs_inv)
  show ?thesis
  proof (cases "smoothedAmplitude ?st1 < silenceThreshold (opts ?st1)")
    case True
    then have "st' = snd (emitViseme ?st1 ''sil'' 0 (smoothedBands ?st1) 0.5)"
      using assms(2) by (simp add: analyze_def Let_def prod_eq_iff)
    then show ?thesis using emit_inv [OF inv1 sil_key] by simp
  next
    case False
    let ?i = "clamp (smoothedAmplitude ?st1 * 3) 0 1"
    obtain v c where cl: "classifyViseme ?st1 (smoothedBands ?st1) ?i = Some (v, c)"
      using classify_total by blast
    then have "st' = snd (holdOff ?st1 v c ?i (smoothedBands ?st1))"
      using assms(2) False by (simp add: analyze_def Let_def prod_eq_iff)
    then show ?thesis
      using holdOff_inv [OF inv1 classify_label [OF cl]] by simp
  qed
qed

lemma init_inv: "an_inv (FrequencyAnalyzer os)"
  by (simp add: an_inv_def FrequencyAnalyzer_def keys_eq)

lemma reset_inv: "an_inv (reset st)"
  by (simp add: an_inv_def reset_def keys_eq)

lemma call_inv: "an_inv st \<Longrightarrow> an_inv (call st c)"
proof (cases c)
  case (Analyze a b)
  assume "an_inv st"
  then show ?thesis
    using analyze_Some [of st a b] analyze_inv [of st a b] by (auto simp add: Analyze)
next
  case Reset
  then show ?thesis by (simp add: reset_inv)
qed

lemma run_calls_inv: "an_inv st \<Longrightarrow> an_inv (run_calls st cs)"
  unfolding run_calls_def
  by (induction cs arbitrary: st) (simp_all add: call_inv)

lemma emit_shape_ok:
  assumes "an_inv st" "v \<in> set EXTENDED_VISEME_KEYS" "f = fst (emitViseme st v i b c)"
  shows "map_of VISEME_SHAPES (from_viseme (transition f)) = Some (shape_of (from_viseme (transition f))) \<and>
         map_of VISEME_SHAPES (to_viseme (transition f)) = Some (shape_of (to_viseme (transition f))) \<and>
         0 \<le> progress (transition f) \<and> progress (transition f) \<le> 1"
proof -
  have inv': "an_inv (snd (emitViseme st v i b c))"
    by (rule emit_inv [OF assms(1,2)])
  then have "previousViseme (snd (emitViseme st v i b c)) \<in> set EXTENDED_VISEME_KEYS"
    "0 \<le> transitionProgress (snd (emitViseme st v i b c))"
    "transitionProgress (snd (emitViseme st v i b c)) \<le> 1"
    by (simp_all add: an_inv_def)
  then show ?thesis
    using assms(2) unfolding assms(3) by (simp only: emit_frame shape_of_table)
qed

lemma emit_interpolated:
  assumes "an_inv st" "v \<in> set EXTENDED_VISEME_KEYS"
  shows "interpolated_shape (fst (emitViseme st v i b c))"
proof -
  let ?f = "fst (emitViseme st v i b c)"
  let ?a = "shape_of (from_viseme (transition ?f))" and ?b = "shape_of (to_viseme (transition ?f))"
  let ?t = "progress (transition ?f)"
  note ok = emit_shape_ok [OF assms refl, of i b c]
  have t: "0 \<le> ?t" "?t \<le> 1" using ok by simp_all
  note ba = shape_of_bounds [of "from_viseme (transition ?f)"]
  note bb = shape_of_bounds [of "to_viseme (transition ?f)"]
  have "0 \<le> open_s ?a + (open_s ?b - open_s ?a) * ?t" "open_s ?a + (open_s ?b - open_s ?a) * ?t \<le> 1"
    "0 \<le> width_s ?a + (width_s ?b - width_s ?a) * ?t" "width_s ?a + (width_s ?b - width_s ?a) * ?t \<le> 1"
    "0 \<le> round_s ?a + (round_s ?b - round_s ?a) * ?t" "round_s ?a + (round_s ?b - round_s ?a) * ?t \<le> 1"
    using ba bb t by (simp_all add: lerp_bounds)
  then have "0 \<le> open_s (shape ?f) \<and> open_s (shape ?f) \<le> 1 \<and>
     0 \<le> width_s (shape ?f) \<and> width_s (shape ?f) \<le> 1 \<and>
     0 \<le> round_s (shape ?f) \<and> round_s (shape ?f) \<le> 1"
    by (simp only: emit_shape [symmetric])
  moreover have "map_of VISEME_SHAPES (from_viseme (transition ?f)) = Some ?a"
    "map_of VISEME_SHAPES (to_viseme (transition ?f)) = Some ?b"
    using ok by simp_all
  ultimately show ?thesis
    unfolding interpolated_shape_def using emit_shape [of st v i b c]
    by (simp only: option.case simp_thms)
qed

lemma analyze_frame:
  assumes "an_inv st"
  shows "\<exists>f st' st1 v i c. analyze st a b = Some (f, st') \<and> an_inv st1 \<and>
           v \<in> set EXTENDED_VISEME_KEYS \<and> f = fst (emitViseme st1 v i (smoothedBands (smoothInputs st a b)) c)"
proof -
  let ?st1 = "smoothInputs st a b"
  have inv1: "an_inv ?st1" using assms(1) by (simp add: smoothInputs_inv)
  have invn: "an_inv (?st1\<lparr>holdCounter := n\<rparr>)" for n
    using inv1 by (simp add: an_inv_def)
  have cur: "currentViseme ?st1 \<in> set EXTENDED_VISEME_KEYS"
    using inv1 by (simp add: an_inv_def)
  show ?thesis
  proof (cases "smoothedAmplitude ?st1 < silenceThreshold (opts ?st1)")
    case True
    then have "analyze st a b = Some (fst (emitViseme ?st1 ''sil'' 0 (smoothedBands ?st1) 0.5),
        snd (emitViseme ?st1 ''sil'' 0 (smoothedBands ?st1) 0.5))"
      by (simp add: analyze_def Let_def)
    then show ?thesis using inv1 sil_key by blast
  next
    case False
    let ?i = "clamp (smoothedAmplitude ?st1 * 3) 0 1"
    obtain v c where cl: "classifyViseme ?st1 (smoothedBands ?st1) ?i = Some (v, c)"
      using classify_total by blast
    have v: "v \<in> set EXTENDED_VISEME_KEYS" by (rule classify_label [OF cl])
    have an: "analyze st a b = Some (fst (holdOff ?st1 v c ?i (smoothedBands ?st1)),
        snd (holdOff ?st1 v c ?i (smoothedBands ?st1)))"
      using cl False by (simp add: analyze_def Let_def)
    consider (same) "v = currentViseme ?st1"
      | (hold) "v \<noteq> currentViseme ?st1" "real_of_int (holdCounter ?st1 + 1) < holdFrames (opts ?st1)"
      | (switch) "v \<noteq> currentViseme ?st1" "\<not> real_of_int (holdCounter ?st1 + 1) < holdFrames (opts ?st1)"
      by blast
    then show ?thesis
    proof cases
      case same
      then have "holdOff ?st1 v c ?i (smoothedBands ?st1) =
          emitViseme (?st1\<lparr>holdCounter := 0\<rparr>) v ?i (smoothedBands ?st1) c"
        by (simp add: holdOff_cases)
      with an invn [of 0] v show ?thesis by metis
    next
      case hold
      then have "holdOff ?st1 v c ?i (smoothedBands ?st1) =
          emitViseme (?st1\<lparr>holdCounter := holdCounter ?st1 + 1\<rparr>) (currentViseme ?st1) ?i (smoothedBands ?st1) 0.5"
        by (simp add: holdOff_cases)
      with an invn [of "holdCounter ?st1 + 1"] cur show ?thesis by metis
    next
      case switch
      then have "holdOff ?st1 v c ?i (smoothedBands ?st1) =
          emitViseme (?st1\<lparr>holdCounter := 0\<rparr>) v ?i (smoothedBands ?st1) c"
        by (simp add: holdOff_cases)
      with an invn [of 0] v show ?thesis by metis
    qed
  qed
qed

lemma max_streak_ge: "c \<le> max_streak l c ps"
proof (induction ps arbitrary: c)
  case Nil
  show ?case by simp
next
  case (Cons p ps)
  show ?case using Cons.IH [of "c + 1"] by simp
qed

lemma max_streak_take: "max_streak l c (take n ps) \<le> max_streak l c ps"
proof (induction ps arbitrary: c n)
  case Nil
  show ?case by simp
next
  case (Cons p ps)
  show ?case
  proof (cases n)
    case 0
    then show ?thesis using max_streak_ge [of c l "p # ps"] by simp
  next
    case (Suc m)
    then show ?thesis
      using Cons.IH [of "c + 1" m] Cons.IH [of 0 m] by auto
  qed
qed

lemma holdOff_run_stable:
  "real_of_int (max_streak (currentViseme st) (holdCounter st) (map fst ps)) < holdFrames (opts st) \<Longrightarrow>
   currentViseme (holdOff_run st ps) = currentViseme st"
proof (induction ps arbitrary: st)
  case Nil
  show ?case by simp
next
  case (Cons p ps)
  obtain v c i where p: "p = (v, c, i)" by (cases p)
  let ?st' = "snd (holdOff st v c i (smoothedBands st))"
  show ?case
  proof (cases "v = currentViseme st")
    case True
    then have s: "currentViseme ?st' = currentViseme st" "holdCounter ?st' = 0" "opts ?st' = opts st"
      by (simp_all add: holdOff_state)
    have "max_streak (currentViseme st) 0 (map fst ps) \<le>
        max_streak (currentViseme st) (holdCounter st) (map fst (p # ps))"
      using True by (simp add: p)
    then have "real_of_int (max_streak (currentViseme ?st') (holdCounter ?st') (map fst ps)) < holdFrames (opts ?st')"
      using Cons.prems unfolding s by linarith
    from Cons.IH [OF this] show ?thesis by (simp add: p s)
  next
    case False
    have ms: "max_streak (currentViseme st) (holdCounter st) (map fst (p # ps)) =
        max_streak (currentViseme st) (holdCounter st + 1) (map fst ps)"
      using False by (simp add: p)
    have "holdCounter st + 1 \<le> max_streak (currentViseme st) (holdCounter st + 1) (map fst ps)"
      by (rule max_streak_ge)
    then have lt: "real_of_int (holdCounter st + 1) < holdFrames (opts st)"
      using Cons.prems unfolding ms by linarith
    then have s: "currentViseme ?st' = currentViseme st" "holdCounter ?st' = holdCounter st + 1"
      "opts ?st' = opts st"
      using False by (simp_all add: holdOff_state)
    have "real_of_int (max_streak (currentViseme ?st') (holdCounter ?st') (map fst ps)) < holdFrames (opts ?st')"
      using Cons.prems unfolding s ms .
    from Cons.IH [OF this] show ?thesis by (simp add: p s)
  qed
qed

lemma alternates_tl: "alternates l (p # ps) \<Longrightarrow> alternates l ps"
  by (cases ps) simp_all

lemma alternates_streak:
  "alternates l ps \<Longrightarrow> c = 0 \<or> c = 1 \<and> (ps = [] \<or> hd ps = l) \<Longrightarrow> max_streak l c ps \<le> 1"
proof (induction ps arbitrary: c)
  case Nil
  then show ?case by auto
next
  case (Cons p ps)
  have alt: "alternates l ps" by (rule alternates_tl [OF Cons.prems(1)])
  show ?case
  proof (cases "p = l")
    case True
    have "max_streak l 0 ps \<le> 1" using Cons.IH [OF alt, of 0] by simp
    moreover have "c \<le> 1" using Cons.prems(2) by auto
    ultimately show ?thesis using True by simp
  next
    case False
    with Cons.prems(2) have c: "c = 0" by auto
    have "ps = [] \<or> hd ps = l"
      using Cons.prems(1) False by (cases ps) simp_all
    then have "max_streak l 1 ps \<le> 1" using Cons.IH [OF alt, of 1] by simp
    then show ?thesis using False c by simp
  qed
qed

section \<open>The claims about the analyzer\<close>

text \<open>
  Claim C4, as the code has it. Whenever the amplitude, after this cycle's exponential
  smoothing, is below \<^verbatim>\<open>silenceThreshold\<close>, \<^verbatim>\<open>analyze()\<close> returns the frame of
  \<^verbatim>\<open>_emitViseme('sil', 0, bands)\<close>: its viseme is \<^verbatim>\<open>sil\<close> and its confidence is the default
  0.5 of the omitted fourth argument (the 0 of the call is the intensity). The result is that
  of \<^verbatim>\<open>_emitViseme\<close> alone, so no classification rule has a part in it, and the hold
  counter is left as it was.
\<close>

theorem silence_gate:
  assumes "smoothValue (smoothedAmplitude st) rawAmplitude (smoothingFactor (opts st))
             < silenceThreshold (opts st)"
  shows "\<exists>f st'. analyze st rawAmplitude rawBands = Some (f, st') \<and>
           (f, st') = emitViseme (smoothInputs st rawAmplitude rawBands) ''sil'' 0
                        (smoothedBands (smoothInputs st rawAmplitude rawBands)) 0.5 \<and>
           viseme f = ''sil'' \<and> confidence f = 0.5 \<and>
           currentViseme st' = ''sil'' \<and> holdCounter st' = holdCounter st"
proof -
  let ?st1 = "smoothInputs st rawAmplitude rawBands"
  let ?r = "emitViseme ?st1 ''sil'' 0 (smoothedBands ?st1) 0.5"
  have "analyze st rawAmplitude rawBands = Some ?r"
    using assms by (simp add: analyze_def Let_def smoothInputs_fields)
  moreover have "viseme (fst ?r) = ''sil''" "confidence (fst ?r) = 0.5"
    "currentViseme (snd ?r) = ''sil''" "holdCounter (snd ?r) = holdCounter st"
    by (simp_all add: emit_frame emit_state smoothInputs_fields)
  ultimately show ?thesis
    by (intro exI [of _ "fst ?r"] exI [of _ "snd ?r"]) simp
qed

theorem silence_gate_witness:
  "smoothValue (smoothedAmplitude (FrequencyAnalyzer DEFAULTS)) 0
     (smoothingFactor (opts (FrequencyAnalyzer DEFAULTS)))
     < silenceThreshold (opts (FrequencyAnalyzer DEFAULTS)) \<and>
   map_option (viseme \<circ> fst) (analyze (FrequencyAnalyzer DEFAULTS) 0 \<lparr>sub = 0, low = 0, mid = 0, high = 0, veryHigh = 0\<rparr>) = Some ''sil'' \<and>
   map_option (confidence \<circ> fst) (analyze (FrequencyAnalyzer DEFAULTS) 0 \<lparr>sub = 0, low = 0, mid = 0, high = 0, veryHigh = 0\<rparr>) = Some 0.5"
proof -
  have h: "smoothValue (smoothedAmplitude (FrequencyAnalyzer DEFAULTS)) 0
      (smoothingFactor (opts (FrequencyAnalyzer DEFAULTS)))
      < silenceThreshold (opts (FrequencyAnalyzer DEFAULTS))"
    by (simp add: FrequencyAnalyzer_def DEFAULTS_def smoothValue_def)
  from silence_gate [OF h, of "\<lparr>sub = 0, low = 0, mid = 0, high = 0, veryHigh = 0\<rparr>"]
  obtain f st' where "analyze (FrequencyAnalyzer DEFAULTS) 0 \<lparr>sub = 0, low = 0, mid = 0, high = 0, veryHigh = 0\<rparr> = Some (f, st')"
    "viseme f = ''sil''" "confidence f = 0.5"
    by (elim exE conjE)
  then show ?thesis using h by simp
qed

text \<open>
  The claim as stated fails on the confidence: a fresh analyzer with the default options,
  fed silence, is below the gate and returns a frame with confidence 0.5, not 0.
\<close>

theorem silence_gate_confidence_is_default:
  "\<not> (smoothValue (smoothedAmplitude (FrequencyAnalyzer DEFAULTS)) 0
         (smoothingFactor (opts (FrequencyAnalyzer DEFAULTS)))
         < silenceThreshold (opts (FrequencyAnalyzer DEFAULTS)) \<longrightarrow>
       map_option (viseme \<circ> fst) (analyze (FrequencyAnalyzer DEFAULTS) 0 \<lparr>sub = 0, low = 0, mid = 0, high = 0, veryHigh = 0\<rparr>) = Some ''sil'' \<and>
       map_option (confidence \<circ> fst) (analyze (FrequencyAnalyzer DEFAULTS) 0 \<lparr>sub = 0, low = 0, mid = 0, high = 0, veryHigh = 0\<rparr>) = Some 0)"
  by (simp add: analyze_def Let_def smoothInputs_fields emit_frame FrequencyAnalyzer_def
      DEFAULTS_def smoothValue_def)

text \<open>
  Claim C5, as the code has it. The hold counter counts consecutive proposals that differ
  from the held label, whether or not they agree with each other. For every threshold
  \<^verbatim>\<open>holdFrames\<close> and every sequence of proposals above the silence gate in which every
  streak of consecutive proposals differing from the held label (the running counter
  included) stays shorter than \<^verbatim>\<open>holdFrames\<close>, the held label never changes; in
  particular, for \<^verbatim>\<open>holdFrames > 1\<close> and a counter at 0, it never changes under a sequence
  that alternates between the held label and other labels. And the held label changes only
  once \<^verbatim>\<open>holdFrames\<close> consecutive proposals have differed from it: if it has changed, some
  such streak reached \<^verbatim>\<open>holdFrames\<close>.
\<close>

theorem holdOff_stability:
  "(real_of_int (max_streak (currentViseme st) (holdCounter st) (map fst ps)) < holdFrames (opts st) \<longrightarrow>
      (\<forall>n. currentViseme (holdOff_run st (take n ps)) = currentViseme st)) \<and>
   (1 < holdFrames (opts st) \<and> holdCounter st = 0 \<and> alternates (currentViseme st) (map fst ps) \<longrightarrow>
      (\<forall>n. currentViseme (holdOff_run st (take n ps)) = currentViseme st)) \<and>
   (currentViseme (holdOff_run st ps) \<noteq> currentViseme st \<longrightarrow>
      holdFrames (opts st) \<le> real_of_int (max_streak (currentViseme st) (holdCounter st) (map fst ps)))"
proof -
  have a: "\<forall>n. currentViseme (holdOff_run st (take n ps)) = currentViseme st"
    if "real_of_int (max_streak (currentViseme st) (holdCounter st) (map fst ps)) < holdFrames (opts st)"
  proof
    fix n
    have "max_streak (currentViseme st) (holdCounter st) (map fst (take n ps)) \<le>
        max_streak (currentViseme st) (holdCounter st) (map fst ps)"
      using max_streak_take [of "currentViseme st" "holdCounter st" n "map fst ps"]
      by (simp add: take_map)
    then have "real_of_int (max_streak (currentViseme st) (holdCounter st) (map fst (take n ps)))
        < holdFrames (opts st)"
      using that by linarith
    then show "currentViseme (holdOff_run st (take n ps)) = currentViseme st"
      by (rule holdOff_run_stable)
  qed
  have b: "real_of_int (max_streak (currentViseme st) (holdCounter st) (map fst ps)) < holdFrames (opts st)"
    if "1 < holdFrames (opts st)" "holdCounter st = 0" "alternates (currentViseme st) (map fst ps)"
  proof -
    have "max_streak (currentViseme st) 0 (map fst ps) \<le> 1"
      using alternates_streak [OF that(3), of 0] by simp
    then show ?thesis using that(1,2) by simp
  qed
  have c: "holdFrames (opts st) \<le> real_of_int (max_streak (currentViseme st) (holdCounter st) (map fst ps))"
    if ne: "currentViseme (holdOff_run st ps) \<noteq> currentViseme st"
  proof (rule ccontr)
    assume "\<not> holdFrames (opts st) \<le> real_of_int (max_streak (currentViseme st) (holdCounter st) (map fst ps))"
    then have "real_of_int (max_streak (currentViseme st) (holdCounter st) (map fst ps)) < holdFrames (opts st)"
      by simp
    from a [OF this] have "currentViseme (holdOff_run st (take (length ps) ps)) = currentViseme st" ..
    with ne show False by simp
  qed
  show ?thesis
  proof (intro conjI impI)
    assume "real_of_int (max_streak (currentViseme st) (holdCounter st) (map fst ps)) < holdFrames (opts st)"
    then show "\<forall>n. currentViseme (holdOff_run st (take n ps)) = currentViseme st" by (rule a)
  next
    assume "1 < holdFrames (opts st) \<and> holdCounter st = 0 \<and> alternates (currentViseme st) (map fst ps)"
    then have "real_of_int (max_streak (currentViseme st) (holdCounter st) (map fst ps)) < holdFrames (opts st)"
      by (intro b) simp_all
    then show "\<forall>n. currentViseme (holdOff_run st (take n ps)) = currentViseme st" by (rule a)
  next
    assume "currentViseme (holdOff_run st ps) \<noteq> currentViseme st"
    then show "holdFrames (opts st) \<le> real_of_int (max_streak (currentViseme st) (holdCounter st) (map fst ps))"
      by (rule c)
  qed
qed

theorem holdOff_stability_witness:
  "1 < holdFrames (opts (FrequencyAnalyzer DEFAULTS)) \<and>
   holdCounter (FrequencyAnalyzer DEFAULTS) = 0 \<and>
   alternates (currentViseme (FrequencyAnalyzer DEFAULTS))
     (map fst [(''aa'', 0.7 :: real, 1 :: real), (''sil'', 0.5, 1), (''E'', 0.65, 1), (''sil'', 0.5, 1)]) \<and>
   currentViseme (holdOff_run (FrequencyAnalyzer DEFAULTS)
     [(''aa'', 0.7, 1), (''sil'', 0.5, 1), (''E'', 0.65, 1), (''sil'', 0.5, 1)]) = ''sil''"
proof -
  let ?ps = "[(''aa'', 0.7, 1), (''sil'', 0.5, 1), (''E'', 0.65, 1), (''sil'', 0.5, 1)]
    :: (string \<times> real \<times> real) list"
  have h: "1 < holdFrames (opts (FrequencyAnalyzer DEFAULTS)) \<and>
      holdCounter (FrequencyAnalyzer DEFAULTS) = 0 \<and>
      alternates (currentViseme (FrequencyAnalyzer DEFAULTS)) (map fst ?ps)"
    by (simp add: FrequencyAnalyzer_def DEFAULTS_def)
  with holdOff_stability [of "FrequencyAnalyzer DEFAULTS" ?ps]
  have "\<forall>n. currentViseme (holdOff_run (FrequencyAnalyzer DEFAULTS) (take n ?ps)) =
      currentViseme (FrequencyAnalyzer DEFAULTS)"
    by (elim conjE) (simp only: simp_thms)
  then have "currentViseme (holdOff_run (FrequencyAnalyzer DEFAULTS) (take 4 ?ps)) =
      currentViseme (FrequencyAnalyzer DEFAULTS)" ..
  then have "currentViseme (holdOff_run (FrequencyAnalyzer DEFAULTS) ?ps) = ''sil''"
    by (simp add: FrequencyAnalyzer_def)
  with h show ?thesis by (simp only: simp_thms)
qed

text \<open>
  The claim as stated fails: with \<^verbatim>\<open>holdFrames = 2\<close> and the held label \<^verbatim>\<open>sil\<close>, the
  proposals \<^verbatim>\<open>aa\<close> then \<^verbatim>\<open>E\<close> change on every cycle and never repeat, yet both differ from
  \<^verbatim>\<open>sil\<close>, the counter reaches 2 on the second one and the held label becomes \<^verbatim>\<open>E\<close>.
  A fresh analyzer with the default options gets these two proposals from two
  \<^verbatim>\<open>analyze()\<close> cycles (amplitude 0.4 with low 0.4 and mid 0.3, then amplitude 0.1 with
  mid 0.4), and holds \<^verbatim>\<open>E\<close> after them.
\<close>

theorem holdOff_switches_on_oscillation:
  "\<not> (1 < holdFrames (opts (FrequencyAnalyzer DEFAULTS)) \<and> ''aa'' \<noteq> ''E'' \<longrightarrow>
      currentViseme (holdOff_run (FrequencyAnalyzer DEFAULTS) [(''aa'', 0.7, 0.78), (''E'', 0.65, 0.468)]) =
      currentViseme (FrequencyAnalyzer DEFAULTS)) \<and>
   proposal (FrequencyAnalyzer DEFAULTS) 0.4 \<lparr>sub = 0, low = 0.4, mid = 0.3, high = 0, veryHigh = 0\<rparr> = Some (''aa'', 0.7) \<and>
   proposal (run_calls (FrequencyAnalyzer DEFAULTS) [Analyze 0.4 \<lparr>sub = 0, low = 0.4, mid = 0.3, high = 0, veryHigh = 0\<rparr>]) 0.1 \<lparr>sub = 0, low = 0, mid = 0.4, high = 0, veryHigh = 0\<rparr> = Some (''E'', 0.65) \<and>
   currentViseme (run_calls (FrequencyAnalyzer DEFAULTS) [Analyze 0.4 \<lparr>sub = 0, low = 0.4, mid = 0.3, high = 0, veryHigh = 0\<rparr>, Analyze 0.1 \<lparr>sub = 0, low = 0, mid = 0.4, high = 0, veryHigh = 0\<rparr>]) = ''E''"
  by (simp add: holdOff_state run_calls_def proposal_def analyze_def holdOff_def emitViseme_def
      classifyViseme_def js_div_def smoothInputs_def FrequencyAnalyzer_def DEFAULTS_def
      smoothValue_def clamp_def Let_def)

text \<open>
  Claim C6. Above the silence gate, with the classifier proposing the label \<open>v\<close>: when
  \<open>v\<close> differs from the held label and the incremented counter is still below
  \<^verbatim>\<open>holdFrames\<close>, the counter is the old one plus one and the held label is unchanged; when
  \<open>v\<close> differs and the incremented counter has reached \<^verbatim>\<open>holdFrames\<close>, the held label
  becomes \<open>v\<close> and the counter is 0; when \<open>v\<close> is the held label, the counter is 0 and the
  label stays. The frame carries the held label.
\<close>

theorem holdOff_step:
  assumes "\<not> smoothedAmplitude (smoothInputs st rawAmplitude rawBands) < silenceThreshold (opts st)"
    and "proposal st rawAmplitude rawBands = Some (v, c)"
  shows "\<exists>f st'. analyze st rawAmplitude rawBands = Some (f, st') \<and>
           viseme f = currentViseme st' \<and>
           (v \<noteq> currentViseme st \<and> real_of_int (holdCounter st + 1) < holdFrames (opts st) \<longrightarrow>
              holdCounter st' = holdCounter st + 1 \<and> currentViseme st' = currentViseme st) \<and>
           (v \<noteq> currentViseme st \<and> \<not> real_of_int (holdCounter st + 1) < holdFrames (opts st) \<longrightarrow>
              holdCounter st' = 0 \<and> currentViseme st' = v) \<and>
           (v = currentViseme st \<longrightarrow>
              holdCounter st' = 0 \<and> currentViseme st' = currentViseme st)"
proof -
  let ?st1 = "smoothInputs st rawAmplitude rawBands"
  let ?r = "holdOff ?st1 v c (clamp (smoothedAmplitude ?st1 * 3) 0 1) (smoothedBands ?st1)"
  have "analyze st rawAmplitude rawBands = Some ?r"
    using assms by (simp add: analyze_def proposal_def Let_def smoothInputs_fields)
  moreover have "viseme (fst ?r) = currentViseme (snd ?r)"
    by (simp add: holdOff_cases emit_frame emit_state)
  moreover have "v \<noteq> currentViseme st \<and> real_of_int (holdCounter st + 1) < holdFrames (opts st) \<longrightarrow>
      holdCounter (snd ?r) = holdCounter st + 1 \<and> currentViseme (snd ?r) = currentViseme st"
    by (simp add: holdOff_state smoothInputs_fields)
  moreover have "v \<noteq> currentViseme st \<and> \<not> real_of_int (holdCounter st + 1) < holdFrames (opts st) \<longrightarrow>
      holdCounter (snd ?r) = 0 \<and> currentViseme (snd ?r) = v"
    by (simp add: holdOff_state smoothInputs_fields)
  moreover have "v = currentViseme st \<longrightarrow>
      holdCounter (snd ?r) = 0 \<and> currentViseme (snd ?r) = currentViseme st"
    by (simp add: holdOff_state smoothInputs_fields)
  ultimately show ?thesis
    by (intro exI [of _ "fst ?r"] exI [of _ "snd ?r"]) (simp only: prod.collapse simp_thms)
qed

theorem holdOff_step_witness:
  "\<not> smoothedAmplitude (smoothInputs (FrequencyAnalyzer DEFAULTS) 1 \<lparr>sub = 0, low = 1, mid = 1, high = 0, veryHigh = 0\<rparr>)
       < silenceThreshold (opts (FrequencyAnalyzer DEFAULTS)) \<and>
   proposal (FrequencyAnalyzer DEFAULTS) 1 \<lparr>sub = 0, low = 1, mid = 1, high = 0, veryHigh = 0\<rparr> = Some (''aa'', 0.7) \<and>
   map_option (holdCounter \<circ> snd) (analyze (FrequencyAnalyzer DEFAULTS) 1 \<lparr>sub = 0, low = 1, mid = 1, high = 0, veryHigh = 0\<rparr>) = Some 1 \<and>
   map_option (currentViseme \<circ> snd) (analyze (FrequencyAnalyzer DEFAULTS) 1 \<lparr>sub = 0, low = 1, mid = 1, high = 0, veryHigh = 0\<rparr>) = Some ''sil''"
proof -
  let ?st = "FrequencyAnalyzer DEFAULTS"
  let ?b = "\<lparr>sub = 0, low = 1, mid = 1, high = 0, veryHigh = 0\<rparr>"
  have h1: "\<not> smoothedAmplitude (smoothInputs ?st 1 ?b) < silenceThreshold (opts ?st)"
    by (simp add: smoothInputs_fields FrequencyAnalyzer_def DEFAULTS_def smoothValue_def)
  have h2: "proposal ?st 1 ?b = Some (''aa'', 0.7)"
    by (simp add: proposal_def classifyViseme_def js_div_def smoothInputs_def FrequencyAnalyzer_def
        DEFAULTS_def smoothValue_def clamp_def Let_def)
  have s: "currentViseme ?st = ''sil''" "holdCounter ?st = 0" "holdFrames (opts ?st) = 2"
    by (simp_all add: FrequencyAnalyzer_def DEFAULTS_def)
  from holdOff_step [OF h1 h2]
  obtain f st' where "analyze ?st 1 ?b = Some (f, st')"
    "''aa'' \<noteq> currentViseme ?st \<and> real_of_int (holdCounter ?st + 1) < holdFrames (opts ?st) \<longrightarrow>
       holdCounter st' = holdCounter ?st + 1 \<and> currentViseme st' = currentViseme ?st"
    by (elim exE conjE)
  then have "map_option (holdCounter \<circ> snd) (analyze ?st 1 ?b) = Some 1"
    "map_option (currentViseme \<circ> snd) (analyze ?st 1 ?b) = Some ''sil''"
    unfolding s by simp_all
  with h1 h2 show ?thesis by (simp only: simp_thms)
qed

text \<open>
  Claim C7. For the band energies sub 0.02, low 0.03, mid 0.05, high 0.30, veryHigh 0.35
  and any intensity (and any analyzer state), the classifier returns \<^verbatim>\<open>SS\<close> with the
  confidence \<^verbatim>\<open>(high + veryHigh) / (totalEnergy + 0.001)\<close>.
\<close>

theorem sibilant_scenario:
  "classifyViseme st \<lparr>sub = 0.02, low = 0.03, mid = 0.05, high = 0.30, veryHigh = 0.35\<rparr> i =
     Some (''SS'', (0.30 + 0.35) / (0.02 + 0.03 + 0.05 + 0.30 + 0.35 + 0.001))"
  by (simp add: classifyViseme_def js_div_def)

theorem sibilant_scenario_witness:
  "classifyViseme (FrequencyAnalyzer DEFAULTS)
     \<lparr>sub = 0.02, low = 0.03, mid = 0.05, high = 0.30, veryHigh = 0.35\<rparr> 0.9 =
     Some (''SS'', 650 / 751)"
  using sibilant_scenario [of "FrequencyAnalyzer DEFAULTS" "0.9"] by simp

text \<open>
  Claim C8. For every analyzer state, band energies and intensity the classifier returns
  a label of the extended set with a confidence; no division it performs is by zero (the
  result is never \<open>None\<close>), since each ratio divides by \<^verbatim>\<open>totalEnergy + 0.001\<close> and is
  computed only past the gate \<^verbatim>\<open>totalEnergy < 0.01\<close>, where the denominator is at least
  0.011; and when no band energy is negative the confidence is in [0,1].
\<close>

theorem classifyViseme_total:
  "\<exists>v c. classifyViseme st b i = Some (v, c) \<and> v \<in> set EXTENDED_VISEME_KEYS \<and>
      (bands_nonneg b \<longrightarrow> 0 \<le> c \<and> c \<le> 1) \<and>
      (sub b + low b + mid b + high b + veryHigh b < 0.01 \<or>
       0.011 \<le> sub b + low b + mid b + high b + veryHigh b + 0.001)"
proof -
  obtain v c where cl: "classifyViseme st b i = Some (v, c)"
    using classify_total by blast
  have "sub b + low b + mid b + high b + veryHigh b < 0.01 \<or>
       0.011 \<le> sub b + low b + mid b + high b + veryHigh b + 0.001"
    by auto
  then show ?thesis
    using cl classify_label [OF cl] classify_confidence [OF _ cl] by blast
qed

theorem classifyViseme_total_witness:
  "bands_nonneg \<lparr>sub = 0.3, low = 0.2, mid = 0.1, high = 0.05, veryHigh = 0\<rparr> \<and>
   (\<exists>v c. classifyViseme (FrequencyAnalyzer DEFAULTS)
       \<lparr>sub = 0.3, low = 0.2, mid = 0.1, high = 0.05, veryHigh = 0\<rparr> 0.5 = Some (v, c) \<and>
     v \<in> set EXTENDED_VISEME_KEYS \<and> 0 \<le> c \<and> c \<le> 1)"
proof -
  have h: "bands_nonneg \<lparr>sub = 0.3, low = 0.2, mid = 0.1, high = 0.05, veryHigh = 0\<rparr>"
    by (simp add: bands_nonneg_def)
  from classifyViseme_total [of "FrequencyAnalyzer DEFAULTS"
      "\<lparr>sub = 0.3, low = 0.2, mid = 0.1, high = 0.05, veryHigh = 0\<rparr>" "0.5"]
  obtain v c where "classifyViseme (FrequencyAnalyzer DEFAULTS)
      \<lparr>sub = 0.3, low = 0.2, mid = 0.1, high = 0.05, veryHigh = 0\<rparr> 0.5 = Some (v, c)"
    "v \<in> set EXTENDED_VISEME_KEYS"
    "bands_nonneg \<lparr>sub = 0.3, low = 0.2, mid = 0.1, high = 0.05, veryHigh = 0\<rparr> \<longrightarrow> 0 \<le> c \<and> c \<le> 1"
    by (elim exE conjE)
  with h show ?thesis by (intro conjI exI [of _ v] exI [of _ c]) simp_all
qed

text \<open>
  Claim C9. For every frame \<^verbatim>\<open>analyze()\<close> emits, on an analyzer reached from the
  constructor by any calls of \<^verbatim>\<open>analyze\<close> and \<^verbatim>\<open>reset\<close>: the labels \<^verbatim>\<open>transition.from\<close> and
  \<^verbatim>\<open>transition.to\<close> (the previous and the current viseme) both have a shape in
  \<^verbatim>\<open>VISEME_SHAPES\<close>, each of \<^verbatim>\<open>open\<close>, \<^verbatim>\<open>width\<close>, \<^verbatim>\<open>round\<close> equals
  \<^verbatim>\<open>a + (b - a) * t\<close> for these two shapes and \<^verbatim>\<open>t = transition.progress\<close>, and each lies
  in [0,1].
\<close>

theorem shape_is_interpolated:
  "\<exists>f st'. analyze (run_calls (FrequencyAnalyzer os) cs) a b = Some (f, st') \<and>
     interpolated_shape f"
proof -
  have "an_inv (run_calls (FrequencyAnalyzer os) cs)"
    by (rule run_calls_inv [OF init_inv])
  from analyze_frame [OF this, of a b] obtain f st' st1 v i c where
    "analyze (run_calls (FrequencyAnalyzer os) cs) a b = Some (f, st')" "an_inv st1"
    "v \<in> set EXTENDED_VISEME_KEYS"
    "f = fst (emitViseme st1 v i (smoothedBands (smoothInputs (run_calls (FrequencyAnalyzer os) cs) a b)) c)"
    by (elim exE conjE)
  then show ?thesis using emit_interpolated by (intro exI [of _ f] exI [of _ st']) simp
qed

theorem shape_is_interpolated_witness:
  "\<exists>f st'. analyze (run_calls (FrequencyAnalyzer DEFAULTS) [Analyze 1 \<lparr>sub = 0, low = 1, mid = 1, high = 0, veryHigh = 0\<rparr>, Reset, Analyze 1 \<lparr>sub = 0, low = 1, mid = 1, high = 0, veryHigh = 0\<rparr>])
       (1 / 2) \<lparr>sub = 0, low = 1, mid = 1, high = 0, veryHigh = 0\<rparr> = Some (f, st') \<and>
     interpolated_shape f"
  by (rule shape_is_interpolated)

text \<open>
  Claim C10. Each of the 15 keys of the extended set has a simple key in the derived
  mapping \<^verbatim>\<open>EXTENDED_TO_SIMPLE\<close>, the simple keys being \<^verbatim>\<open>A\<close> to \<^verbatim>\<open>F\<close>; and for every frame
  \<^verbatim>\<open>analyze()\<close> emits, on an analyzer reached from the constructor by any calls of
  \<^verbatim>\<open>analyze\<close> and \<^verbatim>\<open>reset\<close>, the viseme is a key of the extended set and \<^verbatim>\<open>simpleViseme\<close> is
  the simple key the mapping gives it, so the fallback \<^verbatim>\<open>'A'\<close> is not taken.
\<close>

theorem simpleViseme_total:
  "(\<forall>k \<in> set EXTENDED_VISEME_KEYS. \<exists>s \<in> set SIMPLE_VISEME_KEYS. EXTENDED_TO_SIMPLE k = Some s) \<and>
   length EXTENDED_VISEME_KEYS = 15 \<and>
   SIMPLE_VISEME_KEYS = [''A'', ''B'', ''C'', ''D'', ''E'', ''F''] \<and>
   (\<exists>f st'. analyze (run_calls (FrequencyAnalyzer os) cs) a b = Some (f, st') \<and>
      viseme f \<in> set EXTENDED_VISEME_KEYS \<and>
      EXTENDED_TO_SIMPLE (viseme f) = Some (simpleViseme f) \<and>
      simpleViseme f \<in> set SIMPLE_VISEME_KEYS)"
proof -
  have "an_inv (run_calls (FrequencyAnalyzer os) cs)"
    by (rule run_calls_inv [OF init_inv])
  from analyze_frame [OF this, of a b] obtain f st' st1 v i c where
    an: "analyze (run_calls (FrequencyAnalyzer os) cs) a b = Some (f, st')"
    and v: "v \<in> set EXTENDED_VISEME_KEYS"
    and f: "f = fst (emitViseme st1 v i (smoothedBands (smoothInputs (run_calls (FrequencyAnalyzer os) cs) a b)) c)"
    by blast
  from simple_of_table [OF v] obtain k where
    k: "k \<in> set SIMPLE_VISEME_KEYS" "EXTENDED_TO_SIMPLE v = Some k" by blast
  have "viseme f = v" "simpleViseme f = k"
    unfolding f using k(2) by (simp_all add: emit_frame)
  with an v k have "\<exists>f st'. analyze (run_calls (FrequencyAnalyzer os) cs) a b = Some (f, st') \<and>
      viseme f \<in> set EXTENDED_VISEME_KEYS \<and>
      EXTENDED_TO_SIMPLE (viseme f) = Some (simpleViseme f) \<and>
      simpleViseme f \<in> set SIMPLE_VISEME_KEYS"
    by auto
  moreover have "\<forall>k \<in> set EXTENDED_VISEME_KEYS. \<exists>s \<in> set SIMPLE_VISEME_KEYS. EXTENDED_TO_SIMPLE k = Some s"
    using simple_of_table by blast
  moreover have "length EXTENDED_VISEME_KEYS = 15" by (simp add: keys_eq)
  ultimately show ?thesis using simple_keys_eq by (simp only: simp_thms)
qed

theorem simpleViseme_total_witness:
  "''SS'' \<in> set EXTENDED_VISEME_KEYS \<and> EXTENDED_TO_SIMPLE ''SS'' = Some ''C'' \<and>
   ''C'' \<in> set SIMPLE_VISEME_KEYS \<and>
   (\<exists>f st'. analyze (run_calls (FrequencyAnalyzer DEFAULTS) [Analyze 1 \<lparr>sub = 0, low = 1, mid = 1, high = 0, veryHigh = 0\<rparr>]) 1 \<lparr>sub = 0, low = 1, mid = 1, high = 0, veryHigh = 0\<rparr> = Some (f, st') \<and>
      EXTENDED_TO_SIMPLE (viseme f) = Some (simpleViseme f) \<and>
      simpleViseme f \<in> set SIMPLE_VISEME_KEYS)"
proof -
  note t = simpleViseme_total [of DEFAULTS "[Analyze 1 \<lparr>sub = 0, low = 1, mid = 1, high = 0, veryHigh = 0\<rparr>]" 1 "\<lparr>sub = 0, low = 1, mid = 1, high = 0, veryHigh = 0\<rparr>"]
  have k: "''SS'' \<in> set EXTENDED_VISEME_KEYS"
    by (simp add: keys_eq)
  from t have "\<forall>k \<in> set EXTENDED_VISEME_KEYS. \<exists>s \<in> set SIMPLE_VISEME_KEYS. EXTENDED_TO_SIMPLE k = Some s"
    by (elim conjE)
  from bspec [OF this k] obtain s where "s \<in> set SIMPLE_VISEME_KEYS" "EXTENDED_TO_SIMPLE ''SS'' = Some s"
    by (elim bexE)
  moreover have "EXTENDED_TO_SIMPLE ''SS'' = Some ''C''"
    by (simp add: EXTENDED_TO_SIMPLE_def SIMPLE_VISEMES_def)
  ultimately have "''C'' \<in> set SIMPLE_VISEME_KEYS" by simp
  moreover from t have "\<exists>f st'. analyze (run_calls (FrequencyAnalyzer DEFAULTS) [Analyze 1 \<lparr>sub = 0, low = 1, mid = 1, high = 0, veryHigh = 0\<rparr>]) 1 \<lparr>sub = 0, low = 1, mid = 1, high = 0, veryHigh = 0\<rparr> = Some (f, st') \<and>
      EXTENDED_TO_SIMPLE (viseme f) = Some (simpleViseme f) \<and>
      simpleViseme f \<in> set SIMPLE_VISEME_KEYS"
    by (elim conjE exE) (intro exI conjI, assumption+)
  ultimately show ?thesis
    using k \<open>EXTENDED_TO_SIMPLE ''SS'' = Some ''C''\<close> by (simp only: simp_thms)
qed

end
